theory Spec2Isabelle
  imports Main "HOL-Library.Word"
begin

unbundle bit_operations_syntax

section \<open>Python exceptions as values\<close>

datatype error =
  ValueError | NameError | TypeError | AssertionError | IndexError | OverflowError
  | ZeroDivisionError | NotImplementedError

section \<open>bch.py: division over GF(2)\<close>

text \<open>
  Python's \<open>int.bit_length()\<close>: the number of binary digits of the absolute value
  without leading zeros, 0 for 0.
\<close>

function bit_length :: "int \<Rightarrow> nat" where
  "bit_length n = (if n = 0 then 0 else Suc (bit_length (\<bar>n\<bar> div 2)))"
  by pat_completeness auto
termination
  by (relation "measure (\<lambda>n. nat \<bar>n\<bar>)") auto

declare bit_length.simps [simp del]

text \<open>
  The \<open>while shift >= 0\<close> loop of \<open>nndivide\<close>. The generator polynomial and the dividend
  are Python integers, so \<open>int\<close>; \<open>^\<close>, \<open><<\<close> and \<open>>>\<close> are \<open>XOR\<close>, \<open>push_bit\<close> and
  \<open>drop_bit\<close>. \<open>shift\<close> starts negative when the dividend is shorter than the polynomial.
\<close>

function nndivide_loop :: "int \<Rightarrow> int \<Rightarrow> int \<Rightarrow> int \<Rightarrow> int" where
  "nndivide_loop poly num msk shift =
     (if shift \<ge> 0
      then nndivide_loop poly
             (if num \<ge> msk then num XOR push_bit (nat shift) poly else num)
             (drop_bit 1 msk) (shift - 1)
      else num)"
  by pat_completeness auto
termination
  by (relation "measure (\<lambda>(poly, num, msk, shift). nat (shift + 1))") auto

declare nndivide_loop.simps [simp del]

definition nndivide :: "int \<Rightarrow> int \<Rightarrow> int" where
  "nndivide poly num =
     (if num = 0 then 0
      else nndivide_loop poly num (push_bit (bit_length num - 1) 1)
             (int (bit_length num) - int (bit_length poly)))"

text \<open>
  \<open>int(bits, 2)\<close> on a bit string, a non-empty string over the characters 0 and 1, which
  is what the callers pass; the empty string raises ValueError. For any other string
  Python raises ValueError too, unless the string carries a sign, a 0b prefix,
  underscores between digits or surrounding blanks. Those spellings are not modelled:
  \<open>py_int2\<close> reports ValueError for them, and every statement below is about bit strings.
\<close>

definition binary_digits :: "string \<Rightarrow> bool" where
  "binary_digits s \<longleftrightarrow> s \<noteq> [] \<and> list_all (\<lambda>c. c = CHR ''0'' \<or> c = CHR ''1'') s"

definition int2 :: "string \<Rightarrow> int" where
  "int2 s = foldl (\<lambda>a c. 2 * a + (if c = CHR ''1'' then 1 else 0)) 0 s"

definition py_int2 :: "string \<Rightarrow> error + int" where
  "py_int2 s = (if binary_digits s then Inr (int2 s) else Inl ValueError)"

definition ndivide :: "int \<Rightarrow> string \<Rightarrow> error + int" where
  "ndivide poly bits =
     (case py_int2 bits of Inl e \<Rightarrow> Inl e | Inr num \<Rightarrow> Inr (nndivide poly num))"

text \<open>
  The format \<open>f"{modified:0{blen}b}"\<close>: the binary digits of the number, padded with
  zeros up to width \<open>blen\<close> (never truncated); a negative number has its sign first and
  the zeros after it.
\<close>

function bin_str :: "int \<Rightarrow> string" where
  "bin_str n =
     (if n < 2 then [if n \<le> 0 then CHR ''0'' else CHR ''1'']
      else bin_str (n div 2) @ [if n mod 2 = 0 then CHR ''0'' else CHR ''1''])"
  by pat_completeness auto
termination
  by (relation "measure nat") auto

declare bin_str.simps [simp del]

definition format_0b :: "int \<Rightarrow> nat \<Rightarrow> string" where
  "format_0b n blen =
     (if n < 0
      then CHR ''-'' # replicate (blen - 1 - length (bin_str (- n))) (CHR ''0'') @ bin_str (- n)
      else replicate (blen - length (bin_str n)) (CHR ''0'') @ bin_str n)"

section \<open>bch.py: brute-force repair\<close>

definition flip_pairs :: "nat \<Rightarrow> (nat \<times> nat) list" where
  "flip_pairs blen = concat (map (\<lambda>b1. map (\<lambda>b2. (b1, b2)) [b1 + 1..<blen]) [0..<blen])"

text \<open>
  \<open>repair\<close> returns the error count (0, 1, 2 or the sentinel -1) and a bit string. Each
  \<open>for\<close> loop returns at the first candidate whose syndrome is zero, which is
  \<open>find\<close> over the loop's range.
\<close>

definition repair :: "int \<Rightarrow> string \<Rightarrow> error + (int \<times> string)" where
  "repair poly b =
     (case py_int2 b of
        Inl e \<Rightarrow> Inl e
      | Inr bnum \<Rightarrow>
          if nndivide poly bnum = 0 then Inr (0, b)
          else
            let blen = length b in
            (case find (\<lambda>b1. nndivide poly (bnum XOR push_bit b1 1) = 0) [0..<blen] of
               Some b1 \<Rightarrow> Inr (1, format_0b (bnum XOR push_bit b1 1) blen)
             | None \<Rightarrow>
                 (case find (\<lambda>(b1, b2). nndivide poly (bnum XOR push_bit b1 1 XOR push_bit b2 1) = 0)
                         (flip_pairs blen) of
                    Some (b1, b2) \<Rightarrow> Inr (2, format_0b (bnum XOR push_bit b1 1 XOR push_bit b2 1) blen)
                  | None \<Rightarrow> Inr (- 1, b))))"

section \<open>bch.py: syndrome tables\<close>

text \<open>
  Python list indexing \<open>xs[i]\<close>: a negative index counts from the end, an index outside
  the list raises IndexError.
\<close>

definition py_index :: "'a list \<Rightarrow> int \<Rightarrow> error + nat" where
  "py_index xs i =
     (if 0 \<le> i \<and> i < int (length xs) then Inr (nat i)
      else if i < 0 \<and> - int (length xs) \<le> i then Inr (nat (int (length xs) + i))
      else Inl IndexError)"

text \<open>
  A syndrome table is \<open>syndromes[poly]\<close>: a list of \<open>2 ** synbits\<close> slots, each \<open>None\<close> or
  a pair (weight, pattern).
\<close>

type_synonym syn_table = "(int \<times> int) option list"

text \<open>The first loop of \<open>mk_syn\<close>: every single-bit pattern is stored unconditionally.\<close>

fun syn_singles :: "int \<Rightarrow> nat list \<Rightarrow> syn_table \<Rightarrow> error + syn_table" where
  "syn_singles poly [] t = Inr t"
| "syn_singles poly (n1 # ns) t =
     (let val = push_bit n1 1; r = nndivide poly val
      in case py_index t r of
           Inl e \<Rightarrow> Inl e
         | Inr j \<Rightarrow> syn_singles poly ns (t[j := Some (1, val)]))"

text \<open>The nested loop of \<open>mk_syn\<close>: a two-bit pattern is stored only in an empty slot.\<close>

fun syn_pairs :: "int \<Rightarrow> (nat \<times> nat) list \<Rightarrow> syn_table \<Rightarrow> error + syn_table" where
  "syn_pairs poly [] t = Inr t"
| "syn_pairs poly ((n1, n2) # ps) t =
     (let val = push_bit n1 1 OR push_bit n2 1; r = nndivide poly val
      in case py_index t r of
           Inl e \<Rightarrow> Inl e
         | Inr j \<Rightarrow>
             (if t ! j = None then syn_pairs poly ps (t[j := Some (2, val)])
              else syn_pairs poly ps t))"

text \<open>
  \<open>mk_syn(poly, bits, synbits, errors)\<close>; the result is the table stored under
  \<open>syndromes[poly]\<close>. The pairs \<open>n1 < n2 < bits\<close> are enumerated in the order of the nested
  \<open>range\<close> loops, which is \<open>flip_pairs bits\<close>.
\<close>

definition mk_syn :: "int \<Rightarrow> nat \<Rightarrow> nat \<Rightarrow> nat \<Rightarrow> error + syn_table" where
  "mk_syn poly bits synbits errors =
     (if errors \<notin> {1, 2, 3} then Inl AssertionError
      else case syn_singles poly [0..<bits] (replicate (2 ^ synbits) None) of
             Inl e \<Rightarrow> Inl e
           | Inr t \<Rightarrow> if errors \<ge> 2 then syn_pairs poly (flip_pairs bits) t else Inr t)"

text \<open>
  The six calls of \<open>init\<close>, as (poly, bits, synbits, errors); \<open>errors\<close> defaults to 1.
\<close>

definition bch_configs :: "(int \<times> nat \<times> nat \<times> nat) list" where
  "bch_configs =
     [(29, 7, 4, 1), (465, 14, 8, 2), (41, 26, 5, 1),
      (1897, 31, 10, 2), (1207, 31, 10, 2), (3545, 31, 11, 2)]"

section \<open>Notions used to state the properties of bch.py\<close>

text \<open>
  The remainder of the division over GF(2) by a polynomial of degree \<open>d\<close>, clearing
  the bits \<open>k + d - 1\<close> down to \<open>d\<close> of the dividend one after the other. \<open>nndivide\<close> is
  shown below to compute it; it is only used in proofs.
\<close>

fun gfmod :: "int \<Rightarrow> nat \<Rightarrow> nat \<Rightarrow> int \<Rightarrow> int" where
  "gfmod poly d 0 num = num"
| "gfmod poly d (Suc k) num =
     gfmod poly d k (if bit num (k + d) then num XOR push_bit k poly else num)"

text \<open>
  A bit string with the bit at position \<open>i\<close> flipped; position 0 is the last character,
  the bit that \<open>1 << 0\<close> addresses in \<open>int(b, 2)\<close>.
\<close>

definition flip_bit_at :: "string \<Rightarrow> nat \<Rightarrow> string" where
  "flip_bit_at c i =
     c[length c - 1 - i := (if c ! (length c - 1 - i) = CHR ''0'' then CHR ''1'' else CHR ''0'')]"

text \<open>
  The error patterns in the order \<open>mk_syn\<close> enumerates them: the single bits in ascending
  position, then (for two or more errors) the pairs.
\<close>

definition error_patterns :: "nat \<Rightarrow> nat \<Rightarrow> (int \<times> int) list" where
  "error_patterns bits errors =
     map (\<lambda>n1. (1, push_bit n1 1)) [0..<bits]
     @ (if errors \<ge> 2
        then map (\<lambda>(n1, n2). (2, push_bit n1 1 OR push_bit n2 1)) (flip_pairs bits)
        else [])"

text \<open>
  The table of a polynomial has one slot for every remainder of a division by it.
\<close>

definition syndromes_fit :: "int \<Rightarrow> syn_table \<Rightarrow> bool" where
  "syndromes_fit poly t \<longleftrightarrow> 1 \<le> poly \<and> length t = 2 ^ (bit_length poly - 1)"

section \<open>bitsparser.py: checksum_16\<close>

text \<open>
  \<open>checksum_16(data)\<close> takes an array of bytes (\<open>uint8\<close>). \<open>data.view(np.uint16)\<close> reads
  each pair of bytes as one 16-bit word in the byte order of the machine, which is a
  parameter here, and raises ValueError when the number of bytes is odd. \<open>np.sum\<close> adds
  the words in an unsigned 64-bit accumulator, and the fold and the complement that follow
  are 64-bit operations as well.
\<close>

datatype byteorder = LittleEndian | BigEndian

definition word16 :: "byteorder \<Rightarrow> 8 word \<Rightarrow> 8 word \<Rightarrow> 16 word" where
  "word16 bo b0 b1 =
     (case bo of
        LittleEndian \<Rightarrow> ucast b0 OR push_bit 8 (ucast b1)
      | BigEndian \<Rightarrow> ucast b1 OR push_bit 8 (ucast b0))"

fun view_uint16 :: "byteorder \<Rightarrow> 8 word list \<Rightarrow> error + 16 word list" where
  "view_uint16 bo [] = Inr []"
| "view_uint16 bo [b0] = Inl ValueError"
| "view_uint16 bo (b0 # b1 # bs) =
     (case view_uint16 bo bs of
        Inl e \<Rightarrow> Inl e
      | Inr ws \<Rightarrow> Inr (word16 bo b0 b1 # ws))"

definition np_sum :: "16 word list \<Rightarrow> 64 word" where
  "np_sum ws = sum_list (map ucast ws)"

definition checksum_16 :: "byteorder \<Rightarrow> 8 word list \<Rightarrow> error + 64 word" where
  "checksum_16 bo data =
     (case view_uint16 bo data of
        Inl e \<Rightarrow> Inl e
      | Inr ws \<Rightarrow>
          (let csum = np_sum ws;
               csum = (csum AND 0xFFFF) + drop_bit 16 csum
           in Inr (csum XOR 0xFFFF)))"


section \<open>bitsparser.py: reverse_bits and the bit stream of a parsed line\<close>

text \<open>
  \<open>lookup_table\<close> is \<open>[int(f"{i:08b}"[::-1], 2) for i in range(256)]\<close> as \<open>uint8\<close>: entry \<open>i\<close> is
  the byte \<open>i\<close> with its eight bits in reverse order. \<open>reverse_bits\<close> returns
  \<open>lookup_table[data]\<close>, which for an array of \<open>uint8\<close> indexes the table with every element
  of the array.
\<close>

definition lookup_table :: "8 word list" where
  "lookup_table = map (\<lambda>i. word_of_int (int2 (rev (format_0b (int i) 8)))) [0..<256]"

definition reverse_bits :: "8 word list \<Rightarrow> 8 word list" where
  "reverse_bits data = map (\<lambda>d. lookup_table ! unat d) data"

text \<open>
  The end of \<open>Message.parse_line\<close>, on a line that the regular expression has matched.
  The match is represented by the two groups that decide the bit stream: group 1, the
  direction tag RAW or RWA, and group 12, the bit string, which the expression restricts
  to the characters \<open>[ ] < >\<close>, blank, 0 and 1. \<open>re.sub\<close> removes the decorations and every
  remaining character becomes one \<open>uint8\<close> element through \<open>int(bit)\<close>; a character other
  than 0 and 1 cannot remain, and is a ValueError here.
\<close>

definition strip_decorations :: "string \<Rightarrow> string" where
  "strip_decorations s = filter (\<lambda>c. c \<notin> set ''[]<> '') s"

fun digits_uint8 :: "string \<Rightarrow> error + 8 word list" where
  "digits_uint8 [] = Inr []"
| "digits_uint8 (c # cs) =
     (if c = CHR ''0'' \<or> c = CHR ''1''
      then (case digits_uint8 cs of
              Inl e \<Rightarrow> Inl e
            | Inr bs \<Rightarrow> Inr ((if c = CHR ''1'' then 1 else 0) # bs))
      else Inl ValueError)"

definition message_bitstream :: "string \<Rightarrow> string \<Rightarrow> error + 8 word list" where
  "message_bitstream group1 group12 =
     (let swapped = (group1 = ''RAW'') in
      case digits_uint8 (strip_decorations group12) of
        Inl e \<Rightarrow> Inl e
      | Inr bitstream \<Rightarrow> Inr (if swapped then reverse_bits bitstream else bitstream))"

text \<open>
  The bit order the specification asks for on a swapped capture: the order is reversed
  within each consecutive group of 8 elements, the element at offset \<open>8k + j\<close> moving to
  offset \<open>8k + 7 - j\<close>. (A last group of fewer than 8 elements is left as it is.)
\<close>

function reverse_in_groups_of_8 :: "'a list \<Rightarrow> 'a list" where
  "reverse_in_groups_of_8 xs =
     (if length xs < 8 then xs
      else rev (take 8 xs) @ reverse_in_groups_of_8 (drop 8 xs))"
  by pat_completeness auto
termination
  by (relation "measure length") auto

section \<open>reedsolo.py: the field tables\<close>

text \<open>
  Symbols and table entries are the non-negative integers that \<open>array("B")\<close> holds. A
  raised exception ends the computation: \<open>bind_err\<close> passes the first error on.
\<close>

definition bind_err :: "error + 'a \<Rightarrow> ('a \<Rightarrow> error + 'b) \<Rightarrow> error + 'b" where
  "bind_err m f = (case m of Inl e \<Rightarrow> Inl e | Inr x \<Rightarrow> f x)"

text \<open>
  Reading \<open>xs[i]\<close> and writing \<open>xs[i] = v\<close> on an array of unsigned bytes, for an index that
  is not negative: IndexError outside the array, OverflowError for a value above 255.
\<close>

definition get_item :: "'a list \<Rightarrow> nat \<Rightarrow> error + 'a" where
  "get_item xs i = (if i < length xs then Inr (xs ! i) else Inl IndexError)"

definition set_byte :: "nat list \<Rightarrow> nat \<Rightarrow> nat \<Rightarrow> error + nat list" where
  "set_byte xs i v =
     (if length xs \<le> i then Inl IndexError
      else if 255 < v then Inl OverflowError
      else Inr (xs[i := v]))"

record gf_tables =
  GF_EXP :: "nat list"
  GF_LOG :: "nat list"
  FIELD_SIZE :: nat

text \<open>
  \<open>init_gf(prim, generator, field_size)\<close>, for \<open>field_size >= 1\<close>. The first loop runs \<open>i\<close>
  over \<open>range(FIELD_SIZE)\<close> with the running value \<open>x\<close>; \<open>generator\<close> is not used by the
  source, which always doubles \<open>x\<close>.
\<close>

fun init_gf_loop ::
  "nat \<Rightarrow> nat \<Rightarrow> nat list \<Rightarrow> nat \<Rightarrow> nat list \<times> nat list \<Rightarrow> error + (nat list \<times> nat list)" where
  "init_gf_loop prim field_size [] x (ex, lg) = Inr (ex, lg)"
| "init_gf_loop prim field_size (i # rest) x (ex, lg) =
     bind_err (set_byte ex i x) (\<lambda>ex'.
     bind_err (set_byte lg x i) (\<lambda>lg'.
       let x' = push_bit 1 x in
       init_gf_loop prim field_size rest
         (if x' AND field_size \<noteq> 0 then x' XOR prim else x') (ex', lg')))"

fun copy_exp_loop :: "nat \<Rightarrow> nat list \<Rightarrow> nat list \<Rightarrow> error + nat list" where
  "copy_exp_loop fs [] ex = Inr ex"
| "copy_exp_loop fs (i # rest) ex =
     bind_err (get_item ex (i - fs)) (\<lambda>v.
     bind_err (set_byte ex i v) (copy_exp_loop fs rest))"

definition init_gf :: "nat \<Rightarrow> nat \<Rightarrow> nat \<Rightarrow> error + gf_tables" where
  "init_gf prim generator field_size =
     (let fs = field_size - 1 in
      bind_err (init_gf_loop prim field_size [0..<fs] 1
                  (replicate (fs * 2) 1, replicate (fs + 1) 0)) (\<lambda>(ex, lg).
      bind_err (copy_exp_loop fs [fs..<fs * 2] ex) (\<lambda>ex'.
        Inr \<lparr>GF_EXP = ex', GF_LOG = lg, FIELD_SIZE = fs\<rparr>)))"

definition gf_mul :: "gf_tables \<Rightarrow> nat \<Rightarrow> nat \<Rightarrow> error + nat" where
  "gf_mul gf x y =
     (if x = 0 \<or> y = 0 then Inr 0
      else
        bind_err (get_item (GF_LOG gf) x) (\<lambda>a.
        bind_err (get_item (GF_LOG gf) y) (\<lambda>b.
          if FIELD_SIZE gf = 0 then Inl ZeroDivisionError
          else get_item (GF_EXP gf) ((a + b) mod FIELD_SIZE gf))))"

section \<open>reedsolo.py: encoding\<close>

text \<open>
  \<open>gf_poly_mul(p, q)\<close>: the two \<open>enumerate\<close> loops, each step being
  \<open>result[i + j] ^= gf_mul(coeff1, coeff2)\<close>.
\<close>

fun poly_mul_inner ::
  "gf_tables \<Rightarrow> nat \<Rightarrow> nat \<Rightarrow> (nat \<times> nat) list \<Rightarrow> nat list \<Rightarrow> error + nat list" where
  "poly_mul_inner gf i coeff1 [] result = Inr result"
| "poly_mul_inner gf i coeff1 ((j, coeff2) # rest) result =
     (if length result \<le> i + j then Inl IndexError
      else bind_err (gf_mul gf coeff1 coeff2) (\<lambda>v.
             poly_mul_inner gf i coeff1 rest (result[i + j := result ! (i + j) XOR v])))"

fun poly_mul_outer ::
  "gf_tables \<Rightarrow> (nat \<times> nat) list \<Rightarrow> nat list \<Rightarrow> nat list \<Rightarrow> error + nat list" where
  "poly_mul_outer gf [] q result = Inr result"
| "poly_mul_outer gf ((i, coeff1) # rest) q result =
     bind_err (poly_mul_inner gf i coeff1 (enumerate 0 q) result) (poly_mul_outer gf rest q)"

definition gf_poly_mul :: "gf_tables \<Rightarrow> nat list \<Rightarrow> nat list \<Rightarrow> error + nat list" where
  "gf_poly_mul gf p q =
     poly_mul_outer gf (enumerate 0 p) q (replicate (length p + length q - 1) 0)"

fun generator_loop :: "gf_tables \<Rightarrow> nat list \<Rightarrow> nat list \<Rightarrow> error + nat list" where
  "generator_loop gf [] g = Inr g"
| "generator_loop gf (i # rest) g =
     bind_err (get_item (GF_EXP gf) i) (\<lambda>root.
     bind_err (gf_poly_mul gf g [1, root]) (generator_loop gf rest))"

definition rs_generator_poly :: "gf_tables \<Rightarrow> nat \<Rightarrow> error + nat list" where
  "rs_generator_poly gf nsym = generator_loop gf [0..<nsym] [1]"

text \<open>
  The slices \<open>xs[-n:]\<close> and \<open>xs[:-n]\<close> for \<open>n >= 0\<close>. For \<open>n = 0\<close> they are \<open>xs[0:]\<close>, the whole
  list, and \<open>xs[:0]\<close>, the empty list.
\<close>

definition last_n :: "nat \<Rightarrow> 'a list \<Rightarrow> 'a list" where
  "last_n n xs = (if n = 0 then xs else drop (length xs - n) xs)"

definition all_but_last_n :: "nat \<Rightarrow> 'a list \<Rightarrow> 'a list" where
  "all_but_last_n n xs = (if n = 0 then [] else take (length xs - n) xs)"

text \<open>
  \<open>rs_encode_msg(msg, nsym)\<close>: the division of the padded message by the generator
  polynomial, in place in \<open>msg_out\<close>.
\<close>

fun encode_inner ::
  "gf_tables \<Rightarrow> nat list \<Rightarrow> nat \<Rightarrow> nat \<Rightarrow> nat list \<Rightarrow> nat list \<Rightarrow> error + nat list" where
  "encode_inner gf gen i coef [] msg_out = Inr msg_out"
| "encode_inner gf gen i coef (j # rest) msg_out =
     (if length msg_out \<le> i + j then Inl IndexError
      else bind_err (gf_mul gf (gen ! j) coef) (\<lambda>v.
             encode_inner gf gen i coef rest (msg_out[i + j := msg_out ! (i + j) XOR v])))"

fun encode_outer :: "gf_tables \<Rightarrow> nat list \<Rightarrow> nat list \<Rightarrow> nat list \<Rightarrow> error + nat list" where
  "encode_outer gf gen [] msg_out = Inr msg_out"
| "encode_outer gf gen (i # rest) msg_out =
     (let coef = msg_out ! i in
      if coef \<noteq> 0
      then bind_err (encode_inner gf gen i coef [0..<length gen] msg_out) (encode_outer gf gen rest)
      else encode_outer gf gen rest msg_out)"

definition rs_encode_msg :: "gf_tables \<Rightarrow> nat list \<Rightarrow> nat \<Rightarrow> error + nat list" where
  "rs_encode_msg gf msg nsym =
     bind_err (rs_generator_poly gf nsym) (\<lambda>gen.
     bind_err (encode_outer gf gen [0..<length msg] (msg @ replicate nsym 0)) (\<lambda>msg_out.
       Inr (msg @ last_n nsym msg_out)))"

section \<open>reedsolo.py: decoding\<close>

text \<open>
  \<open>rs_calc_syndromes\<close> calls \<open>gf_poly_eval\<close>, a global name of the module. The helper is a
  parameter of the model: \<open>Some f\<close> when the module binds the name to \<open>f\<close>, \<open>None\<close> when the
  name is unbound, in which case the first call raises NameError (the name is looked up
  before the arguments are evaluated). reedsolo.py binds no \<open>gf_poly_eval\<close>, and no other
  file of the repository defines one: \<open>reedsolo_gf_poly_eval\<close> is the module as it is.
\<close>

type_synonym poly_eval = "gf_tables \<Rightarrow> nat list \<Rightarrow> nat \<Rightarrow> error + nat"

definition reedsolo_gf_poly_eval :: "poly_eval option" where
  "reedsolo_gf_poly_eval = None"

fun syndromes_loop ::
  "poly_eval option \<Rightarrow> gf_tables \<Rightarrow> nat list \<Rightarrow> nat list \<Rightarrow> error + nat list" where
  "syndromes_loop ev gf msg [] = Inr []"
| "syndromes_loop ev gf msg (i # rest) =
     (case ev of
        None \<Rightarrow> Inl NameError
      | Some f \<Rightarrow>
          bind_err (get_item (GF_EXP gf) i) (\<lambda>x.
          bind_err (f gf msg x) (\<lambda>s.
          bind_err (syndromes_loop ev gf msg rest) (\<lambda>ss. Inr (s # ss)))))"

definition rs_calc_syndromes ::
  "poly_eval option \<Rightarrow> gf_tables \<Rightarrow> nat list \<Rightarrow> nat \<Rightarrow> error + nat list" where
  "rs_calc_syndromes ev gf msg nsym = syndromes_loop ev gf msg [0..<nsym]"

text \<open>
  \<open>rs_correct_msg(msg_in, nsym)\<close> returns the pair (message, parity). \<open>max\<close> of an empty
  list of syndromes raises ValueError. With a syndrome that is not zero the source goes
  on to \<open>rs_find_error_locator\<close>, whose first step with a non-zero discrepancy calls
  \<open>gf_poly_scale\<close>, a name the module does not bind either: NameError.
\<close>

definition rs_correct_msg ::
  "poly_eval option \<Rightarrow> gf_tables \<Rightarrow> nat list \<Rightarrow> nat \<Rightarrow> error + (nat list \<times> nat list)" where
  "rs_correct_msg ev gf msg_in nsym =
     bind_err (rs_calc_syndromes ev gf msg_in nsym) (\<lambda>synd.
       if synd = [] then Inl ValueError
       else if Max (set synd) = 0
       then Inr (all_but_last_n nsym msg_in, last_n nsym msg_in)
       else Inl NameError)"

section \<open>reedsolo6.py\<close>

text \<open>
  The functions of reedsolo6.py read the module's tables \<open>GF_EXP\<close>, \<open>GF_LOG\<close> and
  \<open>FIELD_SIZE\<close>; the model takes them as the parameter \<open>gf\<close>. \<open>gf_multiply\<close> is the table
  lookup of \<open>gf_mul\<close> above.
\<close>

definition gf_multiply :: "gf_tables \<Rightarrow> nat \<Rightarrow> nat \<Rightarrow> error + nat" where
  "gf_multiply gf x y =
     (if x = 0 \<or> y = 0 then Inr 0
      else
        bind_err (get_item (GF_LOG gf) x) (\<lambda>a.
        bind_err (get_item (GF_LOG gf) y) (\<lambda>b.
          if FIELD_SIZE gf = 0 then Inl ZeroDivisionError
          else get_item (GF_EXP gf) ((a + b) mod FIELD_SIZE gf))))"

text \<open>
  \<open>gf_poly_multiply(p, q)\<close>: \<open>j\<close> runs over \<open>q\<close> in the outer loop and \<open>i\<close> over \<open>p\<close> in the
  inner one; \<open>bytearray\<close> of a negative length raises ValueError.
\<close>

fun poly_multiply_inner ::
  "gf_tables \<Rightarrow> nat list \<Rightarrow> nat \<Rightarrow> nat \<Rightarrow> nat list \<Rightarrow> nat list \<Rightarrow> error + nat list" where
  "poly_multiply_inner gf p j qj [] r = Inr r"
| "poly_multiply_inner gf p j qj (i # rest) r =
     (if length r \<le> i + j then Inl IndexError
      else bind_err (gf_multiply gf (p ! i) qj) (\<lambda>v.
             poly_multiply_inner gf p j qj rest (r[i + j := r ! (i + j) XOR v])))"

fun poly_multiply_outer ::
  "gf_tables \<Rightarrow> nat list \<Rightarrow> nat list \<Rightarrow> nat list \<Rightarrow> nat list \<Rightarrow> error + nat list" where
  "poly_multiply_outer gf p q [] r = Inr r"
| "poly_multiply_outer gf p q (j # rest) r =
     bind_err (poly_multiply_inner gf p j (q ! j) [0..<length p] r) (poly_multiply_outer gf p q rest)"

definition gf_poly_multiply :: "gf_tables \<Rightarrow> nat list \<Rightarrow> nat list \<Rightarrow> error + nat list" where
  "gf_poly_multiply gf p q =
     (if length p + length q = 0 then Inl ValueError
      else poly_multiply_outer gf p q [0..<length q] (replicate (length p + length q - 1) 0))"

text \<open>
  \<open>rs_generator_poly\<close> and \<open>rs_decode_msg\<close> call \<open>gf_exp\<close> and \<open>gf_poly_eval\<close>, global names
  that reedsolo6.py does not bind (nor does any other file of the repository). As for
  reedsolo.py, the helpers are parameters of the model, \<open>None\<close> for an unbound name, and
  the module as it is has \<open>None\<close> for both.
\<close>

type_synonym field_exp = "nat \<Rightarrow> nat \<Rightarrow> error + nat"

definition reedsolo6_gf_exp :: "field_exp option" where
  "reedsolo6_gf_exp = None"

definition reedsolo6_gf_poly_eval :: "poly_eval option" where
  "reedsolo6_gf_poly_eval = None"

fun generator_loop6 ::
  "field_exp option \<Rightarrow> gf_tables \<Rightarrow> nat \<Rightarrow> nat list \<Rightarrow> nat list \<Rightarrow> error + nat list" where
  "generator_loop6 gx gf generator [] g = Inr g"
| "generator_loop6 gx gf generator (i # rest) g =
     (case gx of
        None \<Rightarrow> Inl NameError
      | Some f \<Rightarrow>
          bind_err (f generator i) (\<lambda>root.
          bind_err (gf_poly_multiply gf g [1, root]) (generator_loop6 gx gf generator rest)))"

definition rs_generator_poly6 ::
  "field_exp option \<Rightarrow> gf_tables \<Rightarrow> nat \<Rightarrow> nat \<Rightarrow> error + nat list" where
  "rs_generator_poly6 gx gf nsym generator = generator_loop6 gx gf generator [0..<nsym] [1]"

text \<open>
  \<open>rs_encode_msg(msg, nsym, generator=2, gen=None)\<close> of reedsolo6.py. The parity is the
  slice \<open>padded_msg[-len(gen) + 1:]\<close>, the last \<open>len(gen) - 1\<close> symbols.
\<close>

fun encode_inner6 ::
  "gf_tables \<Rightarrow> nat list \<Rightarrow> nat \<Rightarrow> nat \<Rightarrow> nat list \<Rightarrow> nat list \<Rightarrow> error + nat list" where
  "encode_inner6 gf gen i coef [] padded_msg = Inr padded_msg"
| "encode_inner6 gf gen i coef (j # rest) padded_msg =
     (if length padded_msg \<le> i + j then Inl IndexError
      else bind_err (gf_multiply gf (gen ! j) coef) (\<lambda>v.
             encode_inner6 gf gen i coef rest
               (padded_msg[i + j := padded_msg ! (i + j) XOR v])))"

fun encode_outer6 :: "gf_tables \<Rightarrow> nat list \<Rightarrow> nat list \<Rightarrow> nat list \<Rightarrow> error + nat list" where
  "encode_outer6 gf gen [] padded_msg = Inr padded_msg"
| "encode_outer6 gf gen (i # rest) padded_msg =
     (let coef = padded_msg ! i in
      if coef \<noteq> 0
      then bind_err (encode_inner6 gf gen i coef [0..<length gen] padded_msg)
             (encode_outer6 gf gen rest)
      else encode_outer6 gf gen rest padded_msg)"

definition rs_encode_msg6 ::
  "field_exp option \<Rightarrow> gf_tables \<Rightarrow> nat list \<Rightarrow> nat \<Rightarrow> nat \<Rightarrow> nat list option
     \<Rightarrow> error + nat list" where
  "rs_encode_msg6 gx gf msg nsym generator gen_arg =
     bind_err (case gen_arg of
                 None \<Rightarrow> rs_generator_poly6 gx gf nsym generator
               | Some gen \<Rightarrow> Inr gen) (\<lambda>gen.
       if gen = [] then Inl ValueError
       else
         bind_err (encode_outer6 gf gen [0..<length msg]
                     (msg @ replicate (length gen - 1) 0)) (\<lambda>padded_msg.
           Inr (msg @ last_n (length gen - 1) padded_msg)))"

text \<open>
  \<open>rs_decode_msg(msg, nsym, generator=2)\<close>: the syndromes, then the split of the message
  when they are all zero, and NotImplementedError otherwise. In the comprehension the
  name \<open>gf_poly_eval\<close> is looked up first, then \<open>gf_exp\<close>.
\<close>

fun syndromes_loop6 ::
  "poly_eval option \<Rightarrow> field_exp option \<Rightarrow> gf_tables \<Rightarrow> nat list \<Rightarrow> nat \<Rightarrow> nat list
     \<Rightarrow> error + nat list" where
  "syndromes_loop6 ev gx gf msg generator [] = Inr []"
| "syndromes_loop6 ev gx gf msg generator (i # rest) =
     (case ev of
        None \<Rightarrow> Inl NameError
      | Some f \<Rightarrow>
          (case gx of
             None \<Rightarrow> Inl NameError
           | Some g \<Rightarrow>
               bind_err (g generator i) (\<lambda>x.
               bind_err (f gf msg x) (\<lambda>s.
               bind_err (syndromes_loop6 ev gx gf msg generator rest) (\<lambda>ss. Inr (s # ss))))))"

definition rs_decode_msg6 ::
  "poly_eval option \<Rightarrow> field_exp option \<Rightarrow> gf_tables \<Rightarrow> nat list \<Rightarrow> nat \<Rightarrow> nat
     \<Rightarrow> error + (nat list \<times> nat list)" where
  "rs_decode_msg6 ev gx gf msg nsym generator =
     bind_err (syndromes_loop6 ev gx gf msg generator [0..<nsym]) (\<lambda>synd.
       if synd = [] then Inl ValueError
       else if Max (set synd) = 0
       then Inr (all_but_last_n nsym msg, last_n nsym msg)
       else Inl NotImplementedError)"

section \<open>rs.py and rs6.py: rs_check\<close>

text \<open>
  A Python slice \<open>xs[lo:hi]\<close> with integer bounds: a negative bound counts from the end,
  and both are clamped to the list.
\<close>

definition py_slice :: "'a list \<Rightarrow> int \<Rightarrow> int \<Rightarrow> 'a list" where
  "py_slice xs lo hi =
     (let n = int (length xs);
          l = (if lo < 0 then max (lo + n) 0 else min lo n);
          h = (if hi < 0 then max (hi + n) 0 else min hi n)
      in take (nat (h - l)) (drop (nat l) xs))"

text \<open>
  Both wrappers call \<open>rs_encode_msg(data[:mlen], NSYM + ELEN, fcr=FCR)\<close>. A keyword
  argument must name a parameter of the function called, otherwise the call raises
  TypeError before the body runs. The parameters are those of the two \<open>def\<close> lines.
\<close>

definition reedsolo_rs_encode_msg_params :: "string list" where
  "reedsolo_rs_encode_msg_params = [''msg'', ''nsym'']"

definition reedsolo6_rs_encode_msg_params :: "string list" where
  "reedsolo6_rs_encode_msg_params = [''msg'', ''nsym'', ''generator'', ''gen'']"

text \<open>
  \<open>rs_check\<close> of rs.py (\<open>NSYM = 8\<close>, \<open>ELEN = 8\<close>, \<open>FCR = 0\<close>). Every exception of the \<open>try\<close>
  block is caught and makes the result \<open>False\<close>.
\<close>

definition rs_check :: "gf_tables \<Rightarrow> nat list \<Rightarrow> bool" where
  "rs_check gf data =
     (let mlen = int (length data) - 8 in
      case (if ''fcr'' \<in> set reedsolo_rs_encode_msg_params
            then rs_encode_msg gf (py_slice data 0 mlen) (8 + 8)
            else Inl TypeError) of
        Inl e \<Rightarrow> False
      | Inr encoded_msg \<Rightarrow>
          py_slice data mlen (int (length data))
            = py_slice encoded_msg mlen (int (length data)))"

text \<open>\<open>rs_check\<close> of rs6.py (\<open>NSYM = 10\<close>, \<open>ELEN = 0\<close>, \<open>FCR = 54\<close>).\<close>

definition rs_check6 :: "field_exp option \<Rightarrow> gf_tables \<Rightarrow> nat list \<Rightarrow> bool" where
  "rs_check6 gx gf data =
     (let message_length = int (length data) - 10 in
      case (if ''fcr'' \<in> set reedsolo6_rs_encode_msg_params
            then rs_encode_msg6 gx gf (py_slice data 0 message_length) (10 + 0) 2 None
            else Inl TypeError) of
        Inl e \<Rightarrow> False
      | Inr encoded_msg \<Rightarrow>
          py_slice data message_length (int (length data))
            = py_slice encoded_msg message_length (int (length encoded_msg)))"
section \<open>nndivide computes the remainder over GF(2)\<close>

lemma bit_length_0: "bit_length 0 = 0"
  by (subst bit_length.simps) simp

lemma bit_length_upper: "0 \<le> n \<Longrightarrow> n < 2 ^ bit_length n"
proof (induction n rule: bit_length.induct)
  case (1 n)
  show ?case
  proof (cases "n = 0")
    case True
    then show ?thesis by simp
  next
    case False
    with 1 have "n div 2 < 2 ^ bit_length (n div 2)" by simp
    then have "n < 2 * 2 ^ bit_length (n div 2)" by linarith
    moreover have "bit_length n = Suc (bit_length (n div 2))"
      using False 1(2) by (subst bit_length.simps) simp
    ultimately show ?thesis by simp
  qed
qed

lemma bit_length_lower: "0 < n \<Longrightarrow> 2 ^ (bit_length n - 1) \<le> n"
proof (induction n rule: bit_length.induct)
  case (1 n)
  have bl: "bit_length n = Suc (bit_length (n div 2))"
    using 1(2) by (subst bit_length.simps) simp
  show ?case
  proof (cases "n div 2 = 0")
    case True
    then have "bit_length (n div 2) = 0" by (simp add: bit_length_0)
    with bl 1(2) show ?thesis by simp
  next
    case False
    with 1(2) have pos: "0 < n div 2" by linarith
    with 1 have ih: "2 ^ (bit_length (n div 2) - 1) \<le> n div 2" by simp
    have "bit_length (n div 2) \<noteq> 0"
      using pos by (subst bit_length.simps) simp
    then have "(2::int) ^ bit_length (n div 2) = 2 * 2 ^ (bit_length (n div 2) - 1)"
      by (cases "bit_length (n div 2)") simp_all
    with ih have "2 ^ bit_length (n div 2) \<le> n" by linarith
    with bl show ?thesis by simp
  qed
qed

lemma bit_length_pos: "n \<noteq> 0 \<Longrightarrow> 0 < bit_length n"
  by (subst bit_length.simps) simp

lemma top_bit_set: "2 ^ m \<le> (x::int) \<Longrightarrow> x < 2 ^ Suc m \<Longrightarrow> bit x m"
proof -
  assume a: "2 ^ m \<le> x" "x < 2 ^ Suc m"
  have "x div 2 ^ m = 1"
    by (rule int_div_pos_eq [where r = "x - 2 ^ m"]) (use a in auto)
  then show ?thesis by (simp add: bit_int_def)
qed

lemma high_bits_clear: "0 \<le> (x::int) \<Longrightarrow> x < 2 ^ m \<Longrightarrow> m \<le> i \<Longrightarrow> \<not> bit x i"
proof -
  assume a: "0 \<le> x" "x < 2 ^ m" "m \<le> i"
  have "(2::int) ^ m \<le> 2 ^ i" using a(3) by simp
  then have "x < 2 ^ i" using a(2) by linarith
  then have "x div 2 ^ i = 0" using a(1) by simp
  then show ?thesis by (simp add: bit_int_def)
qed

lemma small_iff_top_clear:
  "0 \<le> (x::int) \<Longrightarrow> x < 2 ^ Suc m \<Longrightarrow> (2 ^ m \<le> x) = bit x m"
proof
  assume "2 ^ m \<le> x" and "x < 2 ^ Suc m"
  then show "bit x m" by (rule top_bit_set)
next
  assume a: "0 \<le> x" "bit x m"
  show "2 ^ m \<le> x"
  proof (rule ccontr)
    assume "\<not> 2 ^ m \<le> x"
    then have "x < 2 ^ m" by simp
    from high_bits_clear [OF a(1) this order_refl] a(2) show False by simp
  qed
qed


lemma xor_clears_top:
  assumes "2 ^ d \<le> (poly::int)" "poly < 2 ^ Suc d"
    and "0 \<le> (num::int)" "num < 2 ^ Suc (k + d)" "2 ^ (k + d) \<le> num"
  shows "0 \<le> num XOR push_bit k poly \<and> num XOR push_bit k poly < 2 ^ (k + d)"
proof -
  let ?q = "push_bit k poly"
  have "2 ^ d * 2 ^ k \<le> poly * 2 ^ k"
    by (rule mult_right_mono) (use assms(1) in simp_all)
  moreover have "poly * 2 ^ k < 2 ^ Suc d * 2 ^ k"
    by (rule mult_strict_right_mono) (use assms(2) in simp_all)
  moreover have "0 \<le> poly"
    using assms(1) by (rule order_trans [rotated]) simp
  ultimately have q: "2 ^ (k + d) \<le> ?q" "?q < 2 ^ Suc (k + d)" "0 \<le> ?q"
    by (simp_all add: push_bit_eq_mult power_add mult.commute)
  have "take_bit (k + d) (num XOR ?q) = num XOR ?q"
  proof (rule bit_eqI)
    fix i
    have "bit (num XOR ?q) i \<Longrightarrow> i < k + d"
    proof (rule ccontr)
      assume b: "bit (num XOR ?q) i" and "\<not> i < k + d"
      then consider "i = k + d" | "Suc (k + d) \<le> i" by linarith
      then show False
      proof cases
        case 1
        have "bit num (k + d)" "bit ?q (k + d)"
          using top_bit_set assms(4,5) q(1,2) by blast+
        with b 1 show False by (simp add: bit_xor_iff)
      next
        case 2
        have "\<not> bit num i" "\<not> bit ?q i"
          using high_bits_clear [OF assms(3,4) 2] high_bits_clear [OF q(3,2) 2] by blast+
        with b show False by (simp add: bit_xor_iff)
      qed
    qed
    then show "bit (take_bit (k + d) (num XOR ?q)) i = bit (num XOR ?q) i"
      by (simp only: bit_take_bit_iff) blast
  qed
  then show ?thesis by (simp only: take_bit_int_eq_self_iff)
qed

lemma nndivide_loop_neg: "shift < 0 \<Longrightarrow> nndivide_loop poly num msk shift = num"
  by (subst nndivide_loop.simps) simp

lemma nndivide_loop_step:
  "nndivide_loop poly num msk (int k) =
   nndivide_loop poly (if msk \<le> num then num XOR push_bit k poly else num) (msk div 2) (int k - 1)"
  by (subst nndivide_loop.simps) (simp add: drop_bit_eq_div)

lemma nndivide_loop_gfmod:
  assumes "2 ^ d \<le> poly" "poly < 2 ^ Suc d"
  shows "0 \<le> num \<Longrightarrow> num < 2 ^ Suc (k + d) \<Longrightarrow>
         nndivide_loop poly num (2 ^ (k + d)) (int k) = gfmod poly d (Suc k) num"
proof (induction k arbitrary: num)
  case 0
  have "nndivide_loop poly num (2 ^ d) 0 = (if 2 ^ d \<le> num then num XOR poly else num)"
    by (subst nndivide_loop.simps) (simp add: nndivide_loop_neg)
  moreover have "(2 ^ d \<le> num) = bit num d"
    using small_iff_top_clear [of num d] 0 by simp
  ultimately show ?case by simp
next
  case (Suc k)
  let ?num' = "if 2 ^ (Suc k + d) \<le> num then num XOR push_bit (Suc k) poly else num"
  have step: "nndivide_loop poly num (2 ^ (Suc k + d)) (int (Suc k))
              = nndivide_loop poly ?num' (2 ^ (k + d)) (int k)"
    unfolding nndivide_loop_step [of poly num "2 ^ (Suc k + d)" "Suc k"] by simp
  have bnd: "0 \<le> ?num' \<and> ?num' < 2 ^ Suc (k + d)"
  proof (cases "2 ^ (Suc k + d) \<le> num")
    case True
    with xor_clears_top [OF assms Suc.prems(1), of "Suc k"] Suc.prems(2) show ?thesis by simp
  next
    case False
    with Suc.prems(1) show ?thesis by simp
  qed
  have "(2 ^ (Suc k + d) \<le> num) = bit num (Suc k + d)"
    using small_iff_top_clear [of num "Suc k + d"] Suc.prems by simp
  then have "gfmod poly d (Suc (Suc k)) num = gfmod poly d (Suc k) ?num'"
    by simp
  with step Suc.IH bnd show ?case by simp
qed

lemma gfmod_xor:
  "gfmod poly d k (a XOR b) = gfmod poly d k a XOR gfmod poly d k b"
proof (induction k arbitrary: a b)
  case 0
  show ?case by simp
next
  case (Suc k)
  have "(a XOR push_bit k poly) XOR (b XOR push_bit k poly) = a XOR b"
    by (simp add: ac_simps)
  moreover have "(a XOR push_bit k poly) XOR b = (a XOR b) XOR push_bit k poly"
    "a XOR (b XOR push_bit k poly) = (a XOR b) XOR push_bit k poly"
    by (simp_all add: ac_simps)
  ultimately show ?case
    by (simp add: bit_xor_iff Suc.IH [symmetric])
qed

lemma gfmod_small:
  "0 \<le> num \<Longrightarrow> num < 2 ^ (k + d) \<Longrightarrow> gfmod poly d (k + j) num = gfmod poly d k num"
proof (induction j)
  case 0
  show ?case by simp
next
  case (Suc j)
  have "\<not> bit num (k + j + d)"
    by (rule high_bits_clear [OF Suc.prems]) simp
  with Suc show ?case by simp
qed

lemma gfmod_bound:
  assumes "2 ^ d \<le> poly" "poly < 2 ^ Suc d"
  shows "0 \<le> num \<Longrightarrow> num < 2 ^ (k + d) \<Longrightarrow>
         0 \<le> gfmod poly d k num \<and> gfmod poly d k num < 2 ^ d"
proof (induction k arbitrary: num)
  case 0
  then show ?case by simp
next
  case (Suc k)
  have top: "(2 ^ (k + d) \<le> num) = bit num (k + d)"
    using small_iff_top_clear [of num "k + d"] Suc.prems by simp
  show ?case
  proof (cases "bit num (k + d)")
    case True
    with top have "2 ^ (k + d) \<le> num" by simp
    with xor_clears_top [OF assms Suc.prems(1), of k] Suc.prems(2)
    have "0 \<le> num XOR push_bit k poly \<and> num XOR push_bit k poly < 2 ^ (k + d)" by simp
    with Suc.IH True show ?thesis by simp
  next
    case False
    with top have "num < 2 ^ (k + d)" by simp
    with Suc.IH Suc.prems(1) False show ?thesis by simp
  qed
qed

lemma poly_bounds:
  assumes "1 \<le> poly"
  shows "2 ^ (bit_length poly - 1) \<le> poly" "poly < 2 ^ Suc (bit_length poly - 1)"
proof -
  show "2 ^ (bit_length poly - 1) \<le> poly"
    using assms by (intro bit_length_lower) simp
  have "0 < bit_length poly" using assms by (intro bit_length_pos) simp
  then have "Suc (bit_length poly - 1) = bit_length poly" by simp
  with bit_length_upper [of poly] assms show "poly < 2 ^ Suc (bit_length poly - 1)" by simp
qed

lemma nndivide_gfmod:
  assumes p: "1 \<le> poly" and n: "0 \<le> num" "num < 2 ^ (K + (bit_length poly - 1))"
  shows "nndivide poly num = gfmod poly (bit_length poly - 1) K num"
proof (cases "num = 0")
  case True
  have "gfmod poly d k 0 = 0" for d k
    by (induction k) simp_all
  with True show ?thesis by (simp add: nndivide_def)
next
  case False
  define d where "d = bit_length poly - 1"
  define L where "L = bit_length num"
  note pb = poly_bounds [OF p, folded d_def]
  have pos: "0 < num" using False n(1) by simp
  have L: "2 ^ (L - 1) \<le> num" "num < 2 ^ L" "0 < L"
    using bit_length_lower [OF pos] bit_length_upper [OF n(1)] bit_length_pos [OF False]
    by (simp_all add: L_def)
  have bp: "bit_length poly = Suc d"
    using bit_length_pos [of poly] p by (simp add: d_def)
  have nd: "nndivide poly num = nndivide_loop poly num (2 ^ (L - 1)) (int L - int (Suc d))"
    using False by (simp add: nndivide_def L_def bp push_bit_eq_mult)
  show ?thesis
  proof (cases "Suc d \<le> L")
    case True
    define k where "k = L - Suc d"
    have Lk: "L - 1 = k + d" "L = Suc (k + d)" "int L - int (Suc d) = int k"
      using True by (simp_all add: k_def)
    from L(1) have "2 ^ (k + d) \<le> num" by (simp only: Lk(1))
    moreover from n(2) have "num < 2 ^ (K + d)" by (simp only: d_def)
    ultimately have "(2::int) ^ (k + d) < 2 ^ (K + d)" by linarith
    then have "k < K" by simp
    then obtain j where K: "K = Suc k + j"
      using less_iff_Suc_add by auto
    have "nndivide poly num = gfmod poly d (Suc k) num"
      using nndivide_loop_gfmod [OF pb n(1), of k] L(2) by (simp add: nd Lk)
    also have "\<dots> = gfmod poly d K num"
      unfolding K using gfmod_small [OF n(1), of "Suc k" d poly j] L(2) by (simp add: Lk(2))
    finally show ?thesis by (simp add: d_def)
  next
    case False
    then have "int L - int (Suc d) < 0" by simp
    then have a: "nndivide poly num = num"
      by (simp add: nd nndivide_loop_neg)
    from False have "L \<le> d" by simp
    then have "(2::int) ^ L \<le> 2 ^ d" by simp
    with L(2) have "num < 2 ^ d" by linarith
    then have "num < 2 ^ (0 + d)" by simp
    from gfmod_small [OF n(1) this, of poly K] a show ?thesis by (simp add: d_def)
  qed
qed

lemma nat_less_two_power: "0 \<le> (n::int) \<Longrightarrow> n < 2 ^ (nat n + d)"
proof -
  assume "0 \<le> n"
  have "nat n < 2 ^ nat n" by (rule less_exp)
  then have "int (nat n) < int (2 ^ nat n)" by (simp only: of_nat_less_iff)
  then have "int (nat n) < 2 ^ nat n" by simp
  also have "\<dots> \<le> 2 ^ (nat n + d)" by simp
  finally show ?thesis using \<open>0 \<le> n\<close> by simp
qed

lemma nndivide_xor:
  assumes "1 \<le> poly" "0 \<le> a" "0 \<le> b"
  shows "nndivide poly (a XOR b) = nndivide poly a XOR nndivide poly b"
proof -
  define d where "d = bit_length poly - 1"
  define K where "K = nat (max a b)"
  have a: "a < 2 ^ (K + d)"
    using nat_less_two_power [of "max a b" d] assms(2) by (simp add: K_def)
  have b: "b < 2 ^ (K + d)"
    using nat_less_two_power [of "max a b" d] assms(3) by (simp add: K_def)
  have ab: "0 \<le> a XOR b" "a XOR b < 2 ^ (K + d)"
    using assms(2,3) a b by (simp_all add: XOR_upper)
  show ?thesis
    using nndivide_gfmod [OF assms(1,2), of K] nndivide_gfmod [OF assms(1,3), of K]
      nndivide_gfmod [OF assms(1) ab(1), of K] a b ab(2)
    by (simp add: d_def gfmod_xor)
qed

lemma nndivide_bound:
  assumes "1 \<le> poly" "0 \<le> num"
  shows "0 \<le> nndivide poly num \<and> nndivide poly num < 2 ^ (bit_length poly - 1)"
proof -
  define d where "d = bit_length poly - 1"
  have n: "num < 2 ^ (nat num + d)" using nat_less_two_power [OF assms(2)] .
  show ?thesis
    using nndivide_gfmod [OF assms, of "nat num"] n
      gfmod_bound [OF poly_bounds [OF assms(1)] assms(2), of "nat num"]
    by (simp add: d_def)
qed

section \<open>bch.py: bit strings and their integer values\<close>

lemma int2_append_zeros: "int2 (replicate k (CHR ''0'') @ s) = int2 s"
proof -
  have "foldl (\<lambda>a c. 2 * a + (if c = CHR ''1'' then 1 else 0)) (0::int) (replicate k (CHR ''0'')) = 0"
    by (induction k) simp_all
  then show ?thesis by (simp add: int2_def)
qed

lemma binary_digits_zeros: "binary_digits s \<Longrightarrow> binary_digits (replicate k (CHR ''0'') @ s)"
  by (induction k) (simp_all add: binary_digits_def)

lemma set_flip_pairs: "set (flip_pairs blen) = {(b1, b2). b1 < b2 \<and> b2 < blen}"
  by (force simp: flip_pairs_def)

section \<open>bch.py: repair\<close>

text \<open>
  C8. A word whose syndrome under the generator polynomial is zero is returned as it is,
  with error count 0, whatever the polynomial; for poly = 29 the all-zero word of 7 bits
  gives (0, "0000000").
\<close>

theorem repair_zero_syndrome:
  assumes "binary_digits c" and "nndivide poly (int2 c) = 0"
  shows "repair poly c = Inr (0, c) \<and> repair 29 ''0000000'' = Inr (0, ''0000000'')"
proof
  show "repair poly c = Inr (0, c)"
    using assms by (simp add: repair_def py_int2_def)
  show "repair 29 ''0000000'' = Inr (0, ''0000000'')"
    by code_simp
qed

theorem repair_zero_syndrome_witness:
  "binary_digits ''0011101'' \<and> nndivide 29 (int2 ''0011101'') = 0
   \<and> repair 29 ''0011101'' = Inr (0, ''0011101'')"
proof -
  have a: "binary_digits ''0011101''" by code_simp
  have b: "nndivide 29 (int2 ''0011101'') = 0" by code_simp
  show ?thesis using a b repair_zero_syndrome [OF a b] by simp
qed

text \<open>
  C9. The syndrome \<open>ndivide\<close> returns is that of the integer value of the bit string:
  leading zero bits put in front of the string, in any number, leave it unchanged, for
  every generator polynomial.
\<close>

theorem ndivide_leading_zeros:
  assumes "binary_digits bits"
  shows "ndivide p (replicate k (CHR ''0'') @ bits) = ndivide p bits
         \<and> ndivide p bits = Inr (nndivide p (int2 bits))"
  using assms binary_digits_zeros [OF assms, of k]
  by (simp add: ndivide_def py_int2_def int2_append_zeros)

theorem ndivide_leading_zeros_witness:
  "binary_digits ''1000'' \<and> ndivide 29 (replicate 3 (CHR ''0'') @ ''1000'') = ndivide 29 ''1000''
   \<and> ndivide 29 ''1000'' = Inr 8"
proof -
  have a: "binary_digits ''1000''" by code_simp
  have b: "nndivide 29 (int2 ''1000'') = 8" by code_simp
  show ?thesis using a b ndivide_leading_zeros [OF a, of 29 3] by simp
qed

text \<open>
  C5. When the syndrome of the received word is not zero and neither a flip of one bit
  nor a flip of two distinct bits of the word gives a zero syndrome, \<open>repair\<close> returns
  the sentinel count -1 and the received word itself.
\<close>

theorem repair_uncorrectable:
  assumes "binary_digits b"
    and "nndivide poly (int2 b) \<noteq> 0"
    and "\<forall>b1 < length b. nndivide poly (int2 b XOR push_bit b1 1) \<noteq> 0"
    and "\<forall>b1 b2. b1 < b2 \<and> b2 < length b \<longrightarrow>
           nndivide poly (int2 b XOR push_bit b1 1 XOR push_bit b2 1) \<noteq> 0"
  shows "repair poly b = Inr (- 1, b)"
proof -
  have f1: "find (\<lambda>b1. nndivide poly (int2 b XOR push_bit b1 1) = 0) [0..<length b] = None"
    using assms(3) by (simp add: find_None_iff)
  have f2: "find (\<lambda>(b1, b2). nndivide poly (int2 b XOR push_bit b1 1 XOR push_bit b2 1) = 0)
              (flip_pairs (length b)) = None"
    using assms(4) by (auto simp: find_None_iff set_flip_pairs)
  show ?thesis
    using assms(1,2) f1 f2 by (simp add: repair_def py_int2_def)
qed

theorem repair_uncorrectable_witness:
  "binary_digits ''111'' \<and> nndivide 29 (int2 ''111'') \<noteq> 0
   \<and> list_all (\<lambda>b1. nndivide 29 (int2 ''111'' XOR push_bit b1 1) \<noteq> 0) [0..<length ''111'']
   \<and> list_all (\<lambda>(b1, b2). nndivide 29 (int2 ''111'' XOR push_bit b1 1 XOR push_bit b2 1) \<noteq> 0)
         (flip_pairs (length ''111''))
   \<and> repair 29 ''111'' = Inr (- 1, ''111'')"
proof -
  have a: "binary_digits ''111''" by code_simp
  have b: "nndivide 29 (int2 ''111'') \<noteq> 0" by code_simp
  have c': "list_all (\<lambda>b1. nndivide 29 (int2 ''111'' XOR push_bit b1 1) \<noteq> 0) [0..<length ''111'']"
    by code_simp
  then have c: "\<forall>b1 < length ''111''. nndivide 29 (int2 ''111'' XOR push_bit b1 1) \<noteq> 0"
    unfolding list_all_iff set_upt Ball_def atLeastLessThan_iff by simp
  have d': "list_all (\<lambda>(b1, b2). nndivide 29 (int2 ''111'' XOR push_bit b1 1 XOR push_bit b2 1) \<noteq> 0)
              (flip_pairs (length ''111''))"
    by code_simp
  then have d: "\<forall>b1 b2. b1 < b2 \<and> b2 < length ''111'' \<longrightarrow>
          nndivide 29 (int2 ''111'' XOR push_bit b1 1 XOR push_bit b2 1) \<noteq> 0"
    unfolding list_all_iff set_flip_pairs by blast
  show ?thesis using a b c' d' repair_uncorrectable [OF a b c d] by simp
qed

section \<open>bch.py: bit strings, flips and formatting\<close>

lemma xor_eq_zero_iff: "((a::int) XOR b = 0) = (a = b)"
proof
  assume "a XOR b = 0"
  then have "a XOR (a XOR b) = a" by simp
  then show "a = b" by (simp add: xor.assoc [symmetric])
next
  assume "a = b"
  then show "a XOR b = 0" by simp
qed

lemma int2_snoc: "int2 (c @ [x]) = 2 * int2 c + (if x = CHR ''1'' then 1 else 0)"
  by (simp add: int2_def)

lemma int2_Nil: "int2 [] = 0"
  by (simp add: int2_def)

lemma int2_nonneg: "0 \<le> int2 c"
  by (induction c rule: rev_induct) (simp_all add: int2_snoc int2_Nil)

lemma bit_int2:
  "bit (int2 c) i \<longleftrightarrow> i < length c \<and> c ! (length c - 1 - i) = CHR ''1''"
proof (induction c arbitrary: i rule: rev_induct)
  case Nil
  show ?case by (simp add: int2_Nil)
next
  case (snoc x c)
  show ?case
  proof (cases i)
    case 0
    then show ?thesis by (simp add: int2_snoc bit_0)
  next
    case (Suc j)
    have "(2 * int2 c + (if x = CHR ''1'' then 1 else 0)) div 2 = int2 c"
      by simp
    then have "bit (int2 (c @ [x])) (Suc j) = bit (int2 c) j"
      by (simp only: int2_snoc bit_Suc)
    moreover have "(c @ [x]) ! (length c - Suc j) = c ! (length c - 1 - j)" if "j < length c"
    proof -
      from that have "length c - Suc j < length c" by simp
      then show ?thesis by (simp add: nth_append)
    qed
    ultimately show ?thesis using snoc.IH [of j] Suc by auto
  qed
qed

lemma int2_flip_bit_at:
  assumes "list_all (\<lambda>ch. ch = CHR ''0'' \<or> ch = CHR ''1'') c" "i < length c"
  shows "int2 (flip_bit_at c i) = int2 c XOR push_bit i 1"
proof (rule bit_eqI)
  fix k
  let ?n = "length c"
  have len: "length (flip_bit_at c i) = ?n" by (simp add: flip_bit_at_def)
  show "bit (int2 (flip_bit_at c i)) k = bit (int2 c XOR push_bit i 1) k"
  proof (cases "k < ?n")
    case False
    with assms(2) show ?thesis
      by (auto simp: bit_int2 len bit_xor_iff bit_exp_iff)
  next
    case True
    have d: "c ! (?n - 1 - k) = CHR ''0'' \<or> c ! (?n - 1 - k) = CHR ''1''"
      using assms(1) True by (simp add: list_all_length)
    have idx: "(?n - 1 - k = ?n - 1 - i) = (k = i)"
      using True assms(2) by auto
    have "flip_bit_at c i ! (?n - 1 - k) =
          (if k = i then (if c ! (?n - 1 - i) = CHR ''0'' then CHR ''1'' else CHR ''0'')
           else c ! (?n - 1 - k))"
      using True assms(2) idx by (auto simp: flip_bit_at_def nth_list_update)
    with d True show ?thesis
      by (auto simp: bit_int2 len bit_xor_iff bit_exp_iff)
  qed
qed

lemma binary_digits_flip_bit_at:
  "binary_digits c \<Longrightarrow> binary_digits (flip_bit_at c i)"
  unfolding binary_digits_def flip_bit_at_def list_all_iff
  by (auto dest: set_update_subset_insert [THEN subsetD])

lemma int2_zero_replicate:
  "list_all (\<lambda>ch. ch = CHR ''0'' \<or> ch = CHR ''1'') c \<Longrightarrow> int2 c = 0 \<Longrightarrow>
   c = replicate (length c) (CHR ''0'')"
proof (induction c rule: rev_induct)
  case Nil
  show ?case by simp
next
  case (snoc x c)
  from snoc.prems(2) have "2 * int2 c + (if x = CHR ''1'' then 1 else 0) = 0"
    by (simp only: int2_snoc)
  moreover have "0 \<le> int2 c" by (rule int2_nonneg)
  ultimately have z: "int2 c = 0" "x \<noteq> CHR ''1''"
    by (cases "x = CHR ''1''"; simp; linarith)+
  with snoc have "c = replicate (length c) (CHR ''0'')" "x = CHR ''0''" by auto
  then have "c @ [x] = replicate (length c) (CHR ''0'') @ [CHR ''0'']" by simp
  then show ?case by (simp add: replicate_append_same)
qed

lemma bin_str_double:
  assumes "0 < n" "b = 0 \<or> b = 1"
  shows "bin_str (2 * n + b) = bin_str n @ [if b = 0 then CHR ''0'' else CHR ''1'']"
proof -
  have "\<not> 2 * n + b < 2" using assms by auto
  moreover have "(2 * n + b) div 2 = n" "((2 * n + b) mod 2 = 0) = (b = 0)"
    using assms(2) by auto
  ultimately show ?thesis by (subst bin_str.simps) simp
qed

lemma bin_str_small: "bin_str 0 = ''0''" "bin_str 1 = ''1''"
  by (subst bin_str.simps, simp)+

lemma length_bin_str_int2:
  "list_all (\<lambda>ch. ch = CHR ''0'' \<or> ch = CHR ''1'') c \<Longrightarrow> 0 < int2 c \<Longrightarrow>
   length (bin_str (int2 c)) \<le> length c"
proof (induction c rule: rev_induct)
  case Nil
  then show ?case by (simp add: int2_Nil)
next
  case (snoc x c)
  show ?case
  proof (cases "int2 c = 0")
    case True
    with snoc.prems show ?thesis
      by (auto simp: int2_snoc bin_str_small split: if_splits)
  next
    case False
    with int2_nonneg [of c] have pos: "0 < int2 c" by simp
    from bin_str_double [OF pos, of "if x = CHR ''1'' then 1 else 0"]
    have "length (bin_str (int2 (c @ [x]))) = Suc (length (bin_str (int2 c)))"
      by (simp add: int2_snoc)
    with snoc pos show ?thesis by simp
  qed
qed

lemma format_0b_int2:
  "list_all (\<lambda>ch. ch = CHR ''0'' \<or> ch = CHR ''1'') c \<Longrightarrow> c \<noteq> [] \<Longrightarrow>
   format_0b (int2 c) (length c) = c"
proof (induction c rule: rev_induct)
  case Nil
  then show ?case by simp
next
  case (snoc x c)
  from snoc.prems(1) have dc: "list_all (\<lambda>ch. ch = CHR ''0'' \<or> ch = CHR ''1'') c"
    and dx: "x = CHR ''0'' \<or> x = CHR ''1''" by simp_all
  have nn: "\<not> int2 (c @ [x]) < 0" using int2_nonneg [of "c @ [x]"] by simp
  show ?case
  proof (cases "int2 c = 0")
    case True
    from int2_zero_replicate [OF dc True] have c: "c = replicate (length c) (CHR ''0'')" .
    have "format_0b (int2 (c @ [x])) (length (c @ [x])) = replicate (length c) (CHR ''0'') @ [x]"
      using dx True by (auto simp: format_0b_def int2_snoc bin_str_small)
    with c show ?thesis by simp
  next
    case False
    with int2_nonneg [of c] have pos: "0 < int2 c" by simp
    then have ne: "c \<noteq> []" by (auto simp: int2_Nil)
    have bs: "bin_str (int2 (c @ [x])) = bin_str (int2 c) @ [x]"
      using bin_str_double [OF pos, of "if x = CHR ''1'' then 1 else 0"] dx
      by (auto simp: int2_snoc)
    have le: "length (bin_str (int2 c)) \<le> length c"
      by (rule length_bin_str_int2 [OF dc pos])
    have ih: "format_0b (int2 c) (length c) = c" by (rule snoc.IH [OF dc ne])
    have "format_0b (int2 (c @ [x])) (length (c @ [x])) = format_0b (int2 c) (length c) @ [x]"
      using nn pos le by (simp add: format_0b_def bs Suc_diff_le)
    with ih show ?thesis by simp
  qed
qed

section \<open>bch.py: a single flipped bit is repaired\<close>

lemma find_first_upt:
  assumes "i < n" "P i" "\<And>j. j < i \<Longrightarrow> \<not> P j"
  shows "find P [0..<n] = Some i"
  unfolding find_Some_iff
  by (rule exI [of _ i]) (use assms in auto)

lemma repair_single_flip:
  assumes p: "1 \<le> poly"
    and dist: "distinct (map (\<lambda>j. nndivide poly (push_bit j 1)) [0..<bits])"
    and nz: "list_all (\<lambda>j. nndivide poly (push_bit j 1) \<noteq> 0) [0..<bits]"
    and c: "binary_digits c" "length c = bits" "nndivide poly (int2 c) = 0"
    and i: "i < bits"
  shows "repair poly (flip_bit_at c i) = Inr (1, c)"
proof -
  let ?syn = "\<lambda>j. nndivide poly (push_bit j 1)"
  let ?c' = "flip_bit_at c i"
  from c(1) have dig: "list_all (\<lambda>ch. ch = CHR ''0'' \<or> ch = CHR ''1'') c" and ne: "c \<noteq> []"
    by (simp_all add: binary_digits_def)
  have len: "length ?c' = bits" by (simp add: flip_bit_at_def c(2))
  have bd: "binary_digits ?c'" by (rule binary_digits_flip_bit_at [OF c(1)])
  have n': "int2 ?c' = int2 c XOR push_bit i 1"
    by (rule int2_flip_bit_at [OF dig]) (simp add: c(2) i)
  have nn: "0 \<le> int2 c" "0 \<le> int2 c XOR push_bit i 1"
    using int2_nonneg [of c] by simp_all
  have pb: "0 \<le> push_bit j (1::int)" for j by simp
  have syn': "nndivide poly (int2 ?c') = ?syn i"
    unfolding n' by (simp only: nndivide_xor [OF p nn(1) pb] c(3)) simp
  have cand: "nndivide poly (int2 ?c' XOR push_bit b1 1) = ?syn i XOR ?syn b1" for b1
    unfolding n' nndivide_xor [OF p nn(2) pb] nndivide_xor [OF p nn(1) pb] c(3) by simp
  have inj: "inj_on ?syn {0..<bits}"
    using dist by (simp add: distinct_map)
  have nzi: "?syn i \<noteq> 0"
    using nz i by (simp add: list_all_iff)
  have first: "find (\<lambda>b1. nndivide poly (int2 ?c' XOR push_bit b1 1) = 0) [0..<bits] = Some i"
  proof (rule find_first_upt [OF i])
    show "nndivide poly (int2 ?c' XOR push_bit i 1) = 0"
      by (simp only: cand) simp
  next
    fix j assume j: "j < i"
    have "?syn i \<noteq> ?syn j"
    proof
      assume "?syn i = ?syn j"
      with inj i j have "i = j" by (auto dest: inj_onD)
      with j show False by simp
    qed
    then show "nndivide poly (int2 ?c' XOR push_bit j 1) \<noteq> 0"
      by (simp only: cand xor_eq_zero_iff) simp
  qed
  have undo: "int2 ?c' XOR push_bit i 1 = int2 c"
    unfolding n' by (simp only: xor.assoc) simp
  have fmt: "format_0b (int2 c) bits = c"
    using format_0b_int2 [OF dig ne] by (simp add: c(2))
  have "nndivide poly (int2 ?c') \<noteq> 0" using syn' nzi by simp
  with bd first undo fmt show ?thesis
    by (simp add: repair_def py_int2_def len)
qed

lemma single_bit_syndromes:
  "\<forall>(poly, bits, synbits, errors) \<in> set bch_configs.
     1 \<le> poly
     \<and> distinct (map (\<lambda>j. nndivide poly (push_bit j 1)) [0..<bits])
     \<and> list_all (\<lambda>j. nndivide poly (push_bit j 1) \<noteq> 0) [0..<bits]"
  by code_simp

text \<open>
  C4. In each of the six configurations of \<open>init\<close>, for a codeword of the configured
  length (a bit string with zero syndrome) and every bit position below that length,
  \<open>repair\<close> applied to the codeword with that bit flipped returns the error count 1 and
  the original codeword.
\<close>

theorem repair_single_bit_error:
  assumes "(poly, bits, synbits, errors) \<in> set bch_configs"
    and "binary_digits c" "length c = bits" "nndivide poly (int2 c) = 0"
    and "i < bits"
  shows "repair poly (flip_bit_at c i) = Inr (1, c)"
proof -
  from bspec [OF single_bit_syndromes assms(1)]
  have "1 \<le> poly"
    and "distinct (map (\<lambda>j. nndivide poly (push_bit j 1)) [0..<bits])"
    and "list_all (\<lambda>j. nndivide poly (push_bit j 1) \<noteq> 0) [0..<bits]"
    by simp_all
  then show ?thesis
    using assms(2,3,4,5) by (rule repair_single_flip)
qed

theorem repair_single_bit_error_witness:
  "(29, 7, 4, 1) \<in> set bch_configs \<and> binary_digits ''0011101'' \<and> length ''0011101'' = 7
   \<and> nndivide 29 (int2 ''0011101'') = 0 \<and> (3::nat) < 7
   \<and> flip_bit_at ''0011101'' 3 = ''0010101''
   \<and> repair 29 ''0010101'' = Inr (1, ''0011101'')"
proof -
  have a: "(29, 7, 4, 1) \<in> set bch_configs" by (simp add: bch_configs_def)
  have b: "binary_digits ''0011101''" by code_simp
  have c: "length ''0011101'' = 7" by simp
  have d: "nndivide 29 (int2 ''0011101'') = 0" by code_simp
  have e: "(3::nat) < 7" by simp
  have f: "flip_bit_at ''0011101'' 3 = ''0010101''" by code_simp
  from repair_single_bit_error [OF a b c d e] a b c d e f show ?thesis by simp
qed


section \<open>bch.py: the syndrome tables are written within their bounds\<close>

lemma py_index_in_range:
  "0 \<le> r \<Longrightarrow> r < int (length t) \<Longrightarrow> py_index t r = Inr (nat r)"
  by (simp add: py_index_def)

lemma syndromes_fit_index:
  assumes "syndromes_fit poly t" "0 \<le> val"
  shows "py_index t (nndivide poly val) = Inr (nat (nndivide poly val))"
    and "nat (nndivide poly val) < length t"
proof -
  from assms have p: "1 \<le> poly" and l: "length t = 2 ^ (bit_length poly - 1)"
    by (simp_all add: syndromes_fit_def)
  note b = nndivide_bound [OF p assms(2)]
  from b have "nndivide poly val < int (length t)" by (simp add: l)
  with b show "py_index t (nndivide poly val) = Inr (nat (nndivide poly val))"
    by (simp add: py_index_in_range)
  from b show "nat (nndivide poly val) < length t"
    by (simp add: l nat_less_iff)
qed

lemma syn_singles_total:
  "syndromes_fit poly t \<Longrightarrow> \<exists>t'. syn_singles poly ns t = Inr t' \<and> length t' = length t"
proof (induction ns arbitrary: t)
  case Nil
  show ?case by simp
next
  case (Cons n ns)
  have fit: "syndromes_fit poly (t[nat (nndivide poly (push_bit n 1)) := Some (1, push_bit n 1)])"
    using Cons.prems by (simp add: syndromes_fit_def)
  from Cons.IH [OF fit] syndromes_fit_index(1) [OF Cons.prems, of "push_bit n 1"]
  show ?case by (simp add: Let_def)
qed

lemma syn_pairs_total:
  "syndromes_fit poly t \<Longrightarrow> \<exists>t'. syn_pairs poly ps t = Inr t' \<and> length t' = length t"
proof (induction ps arbitrary: t)
  case Nil
  show ?case by simp
next
  case (Cons p ps)
  obtain n1 n2 where p: "p = (n1, n2)" by (cases p)
  let ?val = "push_bit n1 (1::int) OR push_bit n2 1"
  have fit: "syndromes_fit poly (t[nat (nndivide poly ?val) := Some (2, ?val)])"
    using Cons.prems by (simp add: syndromes_fit_def)
  have idx: "py_index t (nndivide poly ?val) = Inr (nat (nndivide poly ?val))"
    by (rule syndromes_fit_index(1) [OF Cons.prems]) simp
  from Cons.IH [OF fit] Cons.IH [OF Cons.prems] idx
  show ?case by (auto simp: p Let_def)
qed

lemma mk_syn_total:
  assumes "1 \<le> poly" "synbits = bit_length poly - 1" "errors \<in> {1, 2, 3}"
  shows "\<exists>t. mk_syn poly bits synbits errors = Inr t \<and> length t = 2 ^ synbits"
proof -
  have fit: "syndromes_fit poly (replicate (2 ^ synbits) None)"
    using assms(1,2) by (simp add: syndromes_fit_def)
  from syn_singles_total [OF fit, of "[0..<bits]"] obtain t1 where
    t1: "syn_singles poly [0..<bits] (replicate (2 ^ synbits) None) = Inr t1"
        "length t1 = 2 ^ synbits" by auto
  have "syndromes_fit poly t1"
    using assms(1,2) t1(2) by (simp add: syndromes_fit_def)
  from syn_pairs_total [OF this, of "flip_pairs bits"] t1 assms(3)
  show ?thesis by (auto simp: mk_syn_def)
qed

lemma config_in_bounds:
  assumes "1 \<le> poly" "synbits = bit_length poly - 1" "errors \<in> {1, 2, 3}"
  shows "(2::nat) ^ synbits = 2 ^ (bit_length poly - 1)
     \<and> (\<forall>n1 < bits. 0 \<le> nndivide poly (push_bit n1 1)
                     \<and> nndivide poly (push_bit n1 1) < 2 ^ synbits)
     \<and> (\<forall>n1 n2. n1 < n2 \<and> n2 < bits \<longrightarrow>
            0 \<le> nndivide poly (push_bit n1 1 OR push_bit n2 1)
          \<and> nndivide poly (push_bit n1 1 OR push_bit n2 1) < 2 ^ synbits)
     \<and> (\<exists>t. mk_syn poly bits synbits errors = Inr t \<and> length t = 2 ^ synbits)"
proof -
  have a: "0 \<le> nndivide poly (push_bit n1 1) \<and> nndivide poly (push_bit n1 1) < 2 ^ synbits" for n1
    using nndivide_bound [OF assms(1), of "push_bit n1 1"] by (simp add: assms(2))
  have b: "0 \<le> nndivide poly (push_bit n1 1 OR push_bit n2 1)
          \<and> nndivide poly (push_bit n1 1 OR push_bit n2 1) < 2 ^ synbits" for n1 n2
    using nndivide_bound [OF assms(1), of "push_bit n1 1 OR push_bit n2 1"] by (simp add: assms(2))
  from a b mk_syn_total [OF assms] assms(2) show ?thesis by blast
qed

lemma bit_length_configs:
  "bit_length 29 = 5" "bit_length 465 = 9" "bit_length 41 = 6"
  "bit_length 1897 = 11" "bit_length 1207 = 11" "bit_length 3545 = 12"
  by code_simp+

text \<open>
  C10. In each of the six configurations of \<open>init\<close> the table has
  \<open>2 ^ synbits = 2 ^ (bit_length poly - 1)\<close> slots, the remainder of every one-bit and
  every two-bit pattern over the codeword length is a non-negative number below
  \<open>2 ^ synbits\<close>, and \<open>mk_syn\<close> builds the table without an IndexError.
\<close>

theorem syndrome_writes_in_bounds:
  "\<forall>(poly, bits, synbits, errors) \<in> set bch_configs.
     (2::nat) ^ synbits = 2 ^ (bit_length poly - 1)
     \<and> (\<forall>n1 < bits. 0 \<le> nndivide poly (push_bit n1 1)
                     \<and> nndivide poly (push_bit n1 1) < 2 ^ synbits)
     \<and> (\<forall>n1 n2. n1 < n2 \<and> n2 < bits \<longrightarrow>
            0 \<le> nndivide poly (push_bit n1 1 OR push_bit n2 1)
          \<and> nndivide poly (push_bit n1 1 OR push_bit n2 1) < 2 ^ synbits)
     \<and> (\<exists>t. mk_syn poly bits synbits errors = Inr t \<and> length t = 2 ^ synbits)"
proof -
  note c = config_in_bounds
  show ?thesis
    unfolding bch_configs_def
    using c [of 29 4 1 7] c [of 465 8 2 14] c [of 41 5 1 26]
      c [of 1897 10 2 31] c [of 1207 10 2 31] c [of 3545 11 2 31]
    by (simp add: bit_length_configs)
qed

theorem syndrome_writes_in_bounds_witness:
  "(29, 7, 4, 1) \<in> set bch_configs \<and> (2::nat) ^ 4 = 2 ^ (bit_length 29 - 1)
   \<and> nndivide 29 (push_bit 6 1) < 2 ^ 4
   \<and> nndivide 29 (push_bit 5 1 OR push_bit 6 1) < 2 ^ 4
   \<and> (\<exists>t. mk_syn 29 7 4 1 = Inr t \<and> length t = 2 ^ 4)"
proof -
  have a: "(29, 7, 4, 1) \<in> set bch_configs" by (simp add: bch_configs_def)
  note w = bspec [OF syndrome_writes_in_bounds a, unfolded prod.case]
  from w have "(2::nat) ^ 4 = 2 ^ (bit_length 29 - 1)"
    and s: "\<forall>n1 < 7. nndivide 29 (push_bit n1 1) < 2 ^ 4"
    and q: "\<forall>n1 n2. n1 < n2 \<and> n2 < 7 \<longrightarrow> nndivide 29 (push_bit n1 1 OR push_bit n2 1) < 2 ^ 4"
    and "\<exists>t. mk_syn 29 7 4 1 = Inr t \<and> length t = 2 ^ 4"
    by blast+
  moreover from s have "nndivide 29 (push_bit 6 1) < 2 ^ 4" by (rule allE [of _ 6]) simp
  moreover from q have "nndivide 29 (push_bit 5 1 OR push_bit 6 1) < 2 ^ 4"
    by (elim allE [of _ 5] allE [of _ 6]) simp
  ultimately show ?thesis using a by blast
qed

section \<open>bch.py: what the syndrome tables hold\<close>

lemma find_append_first:
  "find P (xs @ ys) = (case find P xs of Some x \<Rightarrow> Some x | None \<Rightarrow> find P ys)"
  by (induction xs) simp_all

lemma find_map_comp: "find P (map f xs) = map_option f (find (\<lambda>x. P (f x)) xs)"
  by (induction xs) simp_all

lemma syn_singles_content:
  assumes "syndromes_fit poly t"
    and "distinct (map (\<lambda>n. nndivide poly (push_bit n 1)) ns)"
  shows "\<exists>t'. syn_singles poly ns t = Inr t' \<and> length t' = length t
           \<and> (\<forall>r < length t. t' ! r =
                 (case find (\<lambda>n. nndivide poly (push_bit n 1) = int r) ns of
                    Some n \<Rightarrow> Some (1, push_bit n 1) | None \<Rightarrow> t ! r))"
  using assms
proof (induction ns arbitrary: t)
  case Nil
  show ?case by simp
next
  case (Cons n ns)
  let ?syn = "\<lambda>n. nndivide poly (push_bit n 1)"
  let ?j = "nat (?syn n)"
  let ?t1 = "t[?j := Some (1, push_bit n 1)]"
  have nn: "0 \<le> push_bit n (1::int)" by simp
  note idx = syndromes_fit_index [OF Cons.prems(1) nn]
  from Cons.prems(1) have p: "1 \<le> poly" by (simp add: syndromes_fit_def)
  have syn_nn: "0 \<le> ?syn n" using nndivide_bound [OF p nn] by simp
  have fit: "syndromes_fit poly ?t1"
    using Cons.prems(1) by (simp add: syndromes_fit_def)
  from Cons.prems(2) have dist: "distinct (map ?syn ns)" and fresh: "?syn n \<notin> ?syn ` set ns"
    by simp_all
  from Cons.IH [OF fit dist] obtain t' where
    t': "syn_singles poly ns ?t1 = Inr t'" "length t' = length t"
        "\<And>r. r < length t \<Longrightarrow> t' ! r =
           (case find (\<lambda>n. ?syn n = int r) ns of
              Some n \<Rightarrow> Some (1, push_bit n 1) | None \<Rightarrow> ?t1 ! r)"
    by auto
  have run: "syn_singles poly (n # ns) t = Inr t'"
    using idx(1) t'(1) by (simp add: Let_def)
  have "t' ! r = (case find (\<lambda>n. ?syn n = int r) (n # ns) of
                    Some n \<Rightarrow> Some (1, push_bit n 1) | None \<Rightarrow> t ! r)"
    if r: "r < length t" for r
  proof (cases "?syn n = int r")
    case True
    then have rj: "r = ?j" by simp
    have "find (\<lambda>m. ?syn m = int r) ns = None"
      unfolding find_None_iff
    proof
      assume "\<exists>x. x \<in> set ns \<and> ?syn x = int r"
      then obtain x where "x \<in> set ns" "?syn x = ?syn n" using True by auto
      then have "?syn n \<in> ?syn ` set ns" by (metis image_eqI)
      with fresh show False by simp
    qed
    with t'(3) [OF r] have "t' ! r = ?t1 ! r" by simp
    also have "\<dots> = Some (1, push_bit n 1)"
      using r by (simp add: rj)
    finally show ?thesis using True by simp
  next
    case False
    with syn_nn have "r \<noteq> ?j" by auto
    then have "?t1 ! r = t ! r" by (simp del: push_bit_of_1)
    with t'(3) [OF r] False show ?thesis by (simp del: push_bit_of_1 split: option.split)
  qed
  with run t'(2) show ?case by blast
qed

lemma syn_pairs_content:
  assumes "syndromes_fit poly t"
  shows "\<exists>t'. syn_pairs poly ps t = Inr t' \<and> length t' = length t
           \<and> (\<forall>r < length t. t' ! r =
                 (case t ! r of
                    Some e \<Rightarrow> Some e
                  | None \<Rightarrow>
                      map_option (\<lambda>q. (2, push_bit (fst q) 1 OR push_bit (snd q) 1))
                        (find (\<lambda>q. nndivide poly (push_bit (fst q) 1 OR push_bit (snd q) 1) = int r) ps)))"
  using assms
proof (induction ps arbitrary: t)
  case Nil
  show ?case by (auto split: option.splits)
next
  case (Cons q ps)
  obtain n1 n2 where q: "q = (n1, n2)" by (cases q)
  let ?val = "push_bit n1 (1::int) OR push_bit n2 1"
  let ?syn2 = "\<lambda>q. nndivide poly (push_bit (fst q) 1 OR push_bit (snd q) 1)"
  let ?pat = "\<lambda>q. (2::int, push_bit (fst q) (1::int) OR push_bit (snd q) 1)"
  let ?j = "nat (nndivide poly ?val)"
  let ?t1 = "t[?j := Some (2, ?val)]"
  have nn: "0 \<le> ?val" by simp
  note idx = syndromes_fit_index [OF Cons.prems nn]
  from Cons.prems have p: "1 \<le> poly" by (simp add: syndromes_fit_def)
  have syn_nn: "0 \<le> nndivide poly ?val" using nndivide_bound [OF p nn] by simp
  show ?case
  proof (cases "t ! ?j = None")
    case True
    have fit: "syndromes_fit poly ?t1"
      using Cons.prems by (simp add: syndromes_fit_def)
    from Cons.IH [OF fit] obtain t' where
      t': "syn_pairs poly ps ?t1 = Inr t'" "length t' = length t"
          "\<forall>r < length t. t' ! r =
             (case ?t1 ! r of Some e \<Rightarrow> Some e
              | None \<Rightarrow> map_option ?pat (find (\<lambda>x. ?syn2 x = int r) ps))"
      by auto
    have run: "syn_pairs poly (q # ps) t = Inr t'"
      using idx(1) t'(1) True by (simp add: q Let_def)
    have "t' ! r = (case t ! r of Some e \<Rightarrow> Some e
              | None \<Rightarrow> map_option ?pat (find (\<lambda>x. ?syn2 x = int r) (q # ps)))"
      if r: "r < length t" for r
    proof (cases "nndivide poly ?val = int r")
      case eq: True
      then have rj: "r = ?j" by simp
      from t'(3) r have "t' ! r = Some (2, ?val)" by (simp add: rj)
      with True eq show ?thesis by (simp add: q rj)
    next
      case False
      with syn_nn have "r \<noteq> ?j" by auto
      then have "?t1 ! r = t ! r" by (simp del: push_bit_of_1)
      with t'(3) r False show ?thesis by (simp add: q del: push_bit_of_1 split: option.split)
    qed
    with run t'(2) show ?thesis by blast
  next
    case False
    from Cons.IH [OF Cons.prems] obtain t' where
      t': "syn_pairs poly ps t = Inr t'" "length t' = length t"
          "\<forall>r < length t. t' ! r =
             (case t ! r of Some e \<Rightarrow> Some e
              | None \<Rightarrow> map_option ?pat (find (\<lambda>x. ?syn2 x = int r) ps))"
      by auto
    have run: "syn_pairs poly (q # ps) t = Inr t'"
      using idx(1) t'(1) False by (auto simp: q Let_def)
    have "t' ! r = (case t ! r of Some e \<Rightarrow> Some e
              | None \<Rightarrow> map_option ?pat (find (\<lambda>x. ?syn2 x = int r) (q # ps)))"
      if r: "r < length t" for r
    proof (cases "nndivide poly ?val = int r")
      case True
      then have rj: "r = ?j" by simp
      with False obtain e where "t ! r = Some e" by auto
      with t'(3) r show ?thesis by simp
    next
      case nq: False
      with t'(3) r show ?thesis by (simp add: q del: push_bit_of_1 split: option.split)
    qed
    with run t'(2) show ?thesis by blast
  qed
qed

lemma mk_syn_content:
  assumes p: "1 \<le> poly" and sb: "synbits = bit_length poly - 1" and er: "errors \<in> {1, 2, 3}"
    and dist: "distinct (map (\<lambda>n. nndivide poly (push_bit n 1)) [0..<bits])"
  shows "\<exists>t. mk_syn poly bits synbits errors = Inr t \<and> length t = 2 ^ synbits
           \<and> (\<forall>r < 2 ^ synbits. t ! r =
                 find (\<lambda>(w, val). nndivide poly val = int r) (error_patterns bits errors))"
proof -
  let ?t0 = "replicate (2 ^ synbits) None :: syn_table"
  let ?P = "\<lambda>r. \<lambda>(w :: int, val). nndivide poly val = int r"
  let ?single = "\<lambda>n1. (1 :: int, push_bit n1 (1 :: int))"
  let ?pair = "\<lambda>q. (2 :: int, push_bit (fst q) (1 :: int) OR push_bit (snd q) 1)"
  have fit0: "syndromes_fit poly ?t0"
    using p sb by (simp add: syndromes_fit_def)
  from syn_singles_content [OF fit0 dist] obtain t1 where
    t1: "syn_singles poly [0..<bits] ?t0 = Inr t1" "length t1 = 2 ^ synbits"
        "\<forall>r < 2 ^ synbits. t1 ! r =
           (case find (\<lambda>n. nndivide poly (push_bit n 1) = int r) [0..<bits] of
              Some n \<Rightarrow> Some (1, push_bit n 1) | None \<Rightarrow> ?t0 ! r)"
    by auto
  have s1: "t1 ! r = find (?P r) (map ?single [0..<bits])" if "r < 2 ^ synbits" for r
  proof -
    have "find (?P r) (map ?single [0..<bits])
          = map_option ?single (find (\<lambda>n. nndivide poly (push_bit n 1) = int r) [0..<bits])"
      by (simp only: find_map_comp prod.case)
    with t1(3) that show ?thesis
      by (simp del: push_bit_of_1 split: option.split)
  qed
  have fit1: "syndromes_fit poly t1"
    using p sb t1(2) by (simp add: syndromes_fit_def)
  from syn_pairs_content [OF fit1, of "flip_pairs bits"] obtain t2 where
    t2: "syn_pairs poly (flip_pairs bits) t1 = Inr t2" "length t2 = 2 ^ synbits"
        "\<forall>r < 2 ^ synbits. t2 ! r =
           (case t1 ! r of
              Some e \<Rightarrow> Some e
            | None \<Rightarrow> map_option ?pair
                (find (\<lambda>q. nndivide poly (push_bit (fst q) 1 OR push_bit (snd q) 1) = int r)
                   (flip_pairs bits)))"
    by (auto simp: t1(2))
  have pair_eq: "(\<lambda>(n1, n2). (2 :: int, push_bit n1 (1 :: int) OR push_bit n2 1)) = ?pair"
    by (simp add: fun_eq_iff split_def del: push_bit_of_1)
  have s2: "t2 ! r = find (?P r) (map ?single [0..<bits] @ map ?pair (flip_pairs bits))"
    if "r < 2 ^ synbits" for r
  proof -
    have "find (?P r) (map ?pair (flip_pairs bits))
          = map_option ?pair
              (find (\<lambda>q. nndivide poly (push_bit (fst q) 1 OR push_bit (snd q) 1) = int r)
                 (flip_pairs bits))"
      by (simp only: find_map_comp prod.case)
    with t2(3) that s1 [OF that] show ?thesis
      by (simp only: find_append_first split: option.split)
  qed
  show ?thesis
  proof (cases "errors \<ge> 2")
    case True
    with er t1(1) t2(1) have "mk_syn poly bits synbits errors = Inr t2"
      by (auto simp: mk_syn_def)
    moreover from True have "error_patterns bits errors
        = map ?single [0..<bits] @ map ?pair (flip_pairs bits)"
      by (simp only: error_patterns_def pair_eq if_True)
    ultimately show ?thesis using t2(2) s2 by auto
  next
    case False
    with er t1(1) have "mk_syn poly bits synbits errors = Inr t1"
      by (auto simp: mk_syn_def)
    moreover from False have "error_patterns bits errors = map ?single [0..<bits]"
      by (simp add: error_patterns_def del: push_bit_of_1)
    ultimately show ?thesis using t1(2) s1 by auto
  qed
qed

lemma config_parameters:
  "\<forall>(poly, bits, synbits, errors) \<in> set bch_configs.
     synbits = bit_length poly - 1 \<and> errors \<in> {1, 2, 3}"
  by code_simp

text \<open>
  C6. In each of the six configurations of \<open>init\<close>, \<open>mk_syn\<close> returns a table in which
  every slot holds the first pattern of the enumeration (the single bits in ascending
  position, then the pairs in the order of the nested loops) whose syndrome is the
  slot's index, with its weight; a slot that no pattern reaches stays empty. No later
  pattern replaces an earlier one.
\<close>

theorem syndrome_table_first_wins:
  assumes "(poly, bits, synbits, errors) \<in> set bch_configs"
  shows "\<exists>t. mk_syn poly bits synbits errors = Inr t \<and> length t = 2 ^ synbits
           \<and> (\<forall>r < 2 ^ synbits. t ! r =
                 find (\<lambda>(w, val). nndivide poly val = int r) (error_patterns bits errors))"
proof -
  from bspec [OF single_bit_syndromes assms]
  have "1 \<le> poly" and d: "distinct (map (\<lambda>j. nndivide poly (push_bit j 1)) [0..<bits])"
    by simp_all
  moreover from bspec [OF config_parameters assms]
  have "synbits = bit_length poly - 1" and "errors \<in> {1, 2, 3}"
    by simp_all
  ultimately show ?thesis
    by (intro mk_syn_content)
qed

theorem syndrome_table_first_wins_witness:
  "(465, 14, 8, 2) \<in> set bch_configs
   \<and> find (\<lambda>(w, val). nndivide 465 val = int 3) (error_patterns 14 2) = Some (2, 3)
   \<and> (\<exists>t. mk_syn 465 14 8 2 = Inr t \<and> length t = 2 ^ 8 \<and> t ! 3 = Some (2, 3))"
proof -
  have a: "(465, 14, 8, 2) \<in> set bch_configs" by (simp add: bch_configs_def)
  have f: "find (\<lambda>(w, val). nndivide 465 val = int 3) (error_patterns 14 2) = Some (2, 3)"
    by code_simp
  from syndrome_table_first_wins [OF a] obtain t where
    t: "mk_syn 465 14 8 2 = Inr t" "length t = 2 ^ 8"
       "\<forall>r < 2 ^ 8. t ! r = find (\<lambda>(w, val). nndivide 465 val = int r) (error_patterns 14 2)"
    by blast
  from t(3) have "t ! 3 = find (\<lambda>(w, val). nndivide 465 val = int 3) (error_patterns 14 2)"
    by (rule allE [of _ 3]) simp
  with f t(1,2) a show ?thesis by simp
qed

section \<open>bitsparser.py: a flipped bit changes checksum_16\<close>

lemma word16_flip_first:
  "j < 8 \<Longrightarrow> word16 bo (b0 XOR push_bit j 1) b1
     = word16 bo b0 b1 XOR push_bit (case bo of LittleEndian \<Rightarrow> j | BigEndian \<Rightarrow> j + 8) 1"
  by (cases bo; rule bit_word_eqI)
     (auto simp: word16_def bit_simps dest: bit_imp_le_length)

lemma word16_flip_second:
  "j < 8 \<Longrightarrow> word16 bo b0 (b1 XOR push_bit j 1)
     = word16 bo b0 b1 XOR push_bit (case bo of LittleEndian \<Rightarrow> j + 8 | BigEndian \<Rightarrow> j) 1"
  by (cases bo; rule bit_word_eqI)
     (auto simp: word16_def bit_simps dest: bit_imp_le_length)

lemma view_uint16_even:
  "even (length data) \<Longrightarrow> \<exists>ws. view_uint16 bo data = Inr ws \<and> 2 * length ws = length data"
  by (induction bo data rule: view_uint16.induct) auto

lemma view_uint16_flip:
  assumes "j < 8"
  shows "view_uint16 bo data = Inr ws \<Longrightarrow> i < length data \<Longrightarrow>
         \<exists>k < 16. view_uint16 bo (data[i := data ! i XOR push_bit j 1])
                     = Inr (ws[i div 2 := ws ! (i div 2) XOR push_bit k 1])"
proof (induction bo data arbitrary: ws i rule: view_uint16.induct)
  case (1 bo)
  then show ?case by simp
next
  case (2 bo b0)
  then show ?case by simp
next
  case (3 bo b0 b1 bs)
  from "3.prems"(1) obtain vs where vs: "view_uint16 bo bs = Inr vs" "ws = word16 bo b0 b1 # vs"
    by (auto split: sum.splits)
  consider "i = 0" | "i = 1" | i' where "i = Suc (Suc i')" "i' < length bs"
    using "3.prems"(2) by (cases i; simp; rename_tac m; case_tac m; simp)
  then show ?case
  proof cases
    case 1
    let ?k = "case bo of LittleEndian \<Rightarrow> j | BigEndian \<Rightarrow> j + 8"
    have "?k < 16" using assms by (cases bo) simp_all
    then show ?thesis
      using 1 vs word16_flip_first [OF assms, of bo b0 b1]
      by (intro exI [of _ ?k]) (simp del: push_bit_of_1)
  next
    case 2
    let ?k = "case bo of LittleEndian \<Rightarrow> j + 8 | BigEndian \<Rightarrow> j"
    have "?k < 16" using assms by (cases bo) simp_all
    then show ?thesis
      using 2 vs word16_flip_second [OF assms, of bo b0 b1]
      by (intro exI [of _ ?k]) (simp del: push_bit_of_1)
  next
    case 3
    from "3.IH" [OF vs(1) 3(2)] obtain k where
      k: "k < 16" "view_uint16 bo (bs[i' := bs ! i' XOR push_bit j 1])
                    = Inr (vs[i' div 2 := vs ! (i' div 2) XOR push_bit k 1])"
      by blast
    then show ?thesis
      using 3(1) vs(2) by (intro exI [of _ k]) (simp del: push_bit_of_1)
  qed
qed

lemma sum_list_map_update:
  fixes f :: "'a \<Rightarrow> 'b::ab_group_add"
  shows "m < length xs \<Longrightarrow>
    sum_list (map f (xs[m := v])) = sum_list (map f xs) - f (xs ! m) + f v"
  by (induction xs arbitrary: m) (auto split: nat.splits)

lemma ucast_flip:
  "k < 16 \<Longrightarrow> (ucast ((w :: 16 word) XOR push_bit k 1) :: 64 word) = ucast w XOR push_bit k 1"
  by (rule bit_word_eqI) (auto simp: bit_simps)

lemma xor_single_bit:
  "(x :: 64 word) XOR push_bit k 1 = (if bit x k then x - 2 ^ k else x + 2 ^ k)"
proof -
  have "x XOR push_bit k 1 = flip_bit k x" by (simp only: flip_bit_def)
  then show ?thesis
    by (simp add: flip_bit_eq_if set_bit_eq unset_bit_eq)
qed

lemma np_sum_flip:
  assumes "m < length ws" "k < 16"
  shows "np_sum (ws[m := ws ! m XOR push_bit k 1]) = np_sum ws + 2 ^ k
       \<or> np_sum ws = np_sum (ws[m := ws ! m XOR push_bit k 1]) + 2 ^ k"
proof -
  let ?x = "ucast (ws ! m) :: 64 word"
  have "np_sum (ws[m := ws ! m XOR push_bit k 1]) = np_sum ws - ?x + (?x XOR push_bit k 1)"
    unfolding np_sum_def sum_list_map_update [OF assms(1)] ucast_flip [OF assms(2)] ..
  then show ?thesis
    by (cases "bit ?x k") (simp_all add: xor_single_bit del: push_bit_of_1)
qed

lemma split16: "r < 65536 \<Longrightarrow> (q * 65536 + r) mod 65536 = (r::nat) \<and> (q * 65536 + r) div 65536 = q"
  by simp

lemma fold16_arith:
  assumes "s < 2 ^ 64" "1 \<le> p" "p \<le> 32768"
  shows "((s + p) mod 2 ^ 64) mod 65536 + ((s + p) mod 2 ^ 64) div 65536
           \<noteq> s mod 65536 + (s::nat) div 65536"
proof -
  define lo hi where "lo = s mod 65536" and "hi = s div 65536"
  have s: "s = hi * 65536 + lo" by (simp add: lo_def hi_def)
  have lo: "lo < 65536" by (simp add: lo_def)
  have hi: "hi < 281474976710656"
    using assms(1) by (simp add: hi_def less_mult_imp_div_less)
  consider (a) "lo + p < 65536"
    | (b) "65536 \<le> lo + p" "hi + 1 < 281474976710656"
    | (c) "65536 \<le> lo + p" "hi + 1 = 281474976710656"
    using hi by linarith
  then show ?thesis
  proof cases
    case a
    have "s + p = hi * 65536 + (lo + p)" by (simp add: s)
    moreover have "s + p < 2 ^ 64" using a hi s by simp
    ultimately have "(s + p) mod 2 ^ 64 = hi * 65536 + (lo + p)" by simp
    with split16 [OF a, of hi] assms(2) show ?thesis
      by (simp add: lo_def [symmetric] hi_def [symmetric])
  next
    case b
    let ?r = "lo + p - 65536"
    have r: "?r < 65536" using lo assms(3) by simp
    have "s + p = (hi + 1) * 65536 + ?r" using b(1) by (simp add: s)
    moreover have "(hi + 1) * 65536 + ?r < 2 ^ 64" using b(2) r by simp
    ultimately have "(s + p) mod 2 ^ 64 = (hi + 1) * 65536 + ?r" by simp
    with split16 [OF r, of "hi + 1"] assms(3) b(1) show ?thesis
      by (simp add: lo_def [symmetric] hi_def [symmetric])
  next
    case c
    let ?r = "lo + p - 65536"
    have r: "?r < 65536" "?r < lo" using lo assms(3) c(1) by simp_all
    have "s + p = 2 ^ 64 + ?r" using c by (simp add: s)
    then have "(s + p) mod 2 ^ 64 = ?r" using r(1) by simp
    moreover have "?r mod 65536 + ?r div 65536 = ?r" using r(1) by simp
    ultimately show ?thesis using r(2)
      by (simp add: lo_def [symmetric] hi_def [symmetric])
  qed
qed

lemma fold16_no_overflow: "(x::nat) < 2 ^ 64 \<Longrightarrow> x mod 65536 + x div 65536 < 2 ^ 64"
proof -
  assume "x < 2 ^ 64"
  have "x mod 65536 < 65536" by simp
  moreover have "x div 65536 < 2 ^ 48" using \<open>x < 2 ^ 64\<close> by (simp add: less_mult_imp_div_less)
  ultimately show ?thesis by simp
qed

lemma unat_fold16:
  "unat (((s :: 64 word) AND 0xFFFF) + drop_bit 16 s) = unat s mod 65536 + unat s div 65536"
proof -
  have m: "(0xFFFF :: 64 word) = mask 16" by (simp add: mask_eq_exp_minus_1)
  have a: "unat (s AND 0xFFFF) = unat s mod 65536"
    by (simp only: m take_bit_eq_mask [symmetric] unsigned_take_bit_eq take_bit_nat_def) simp
  have b: "unat (drop_bit 16 s) = unat s div 65536"
    by (simp add: unat_drop_bit_eq drop_bit_nat_def)
  have "unat s < 2 ^ 64" using unsigned_less [of s] by simp
  then have "unat s mod 65536 + unat s div 65536 < 2 ^ 64" by (rule fold16_no_overflow)
  moreover have "unat ((s AND 0xFFFF) + drop_bit 16 s)
      = (unat (s AND 0xFFFF) + unat (drop_bit 16 s)) mod 2 ^ 64"
    by (simp add: unat_word_ariths)
  ultimately show ?thesis
    by (simp only: a b mod_less)
qed

lemma unat_two_power: "k < 16 \<Longrightarrow> unat (2 ^ k :: 64 word) = 2 ^ k"
proof -
  assume k: "k < 16"
  have "(2 ^ k :: 64 word) = of_nat (2 ^ k)" by simp
  then have "unat (2 ^ k :: 64 word) = (2 ^ k) mod 2 ^ 64"
    by (simp only: unat_of_nat) simp
  moreover have "(2::nat) ^ k < 2 ^ 64" using k by (intro power_strict_increasing) simp_all
  ultimately show ?thesis by simp
qed

lemma two_power_small: "k < 16 \<Longrightarrow> (2::nat) ^ k \<le> 32768"
proof -
  assume "k < 16"
  then have "(2::nat) ^ k \<le> 2 ^ 15" by (intro power_increasing) simp_all
  then show "(2::nat) ^ k \<le> 32768" by simp
qed

lemma unat_add_two_power:
  "k < 16 \<Longrightarrow> unat ((s :: 64 word) + 2 ^ k) = (unat s + 2 ^ k) mod 2 ^ 64"
  by (simp only: unat_word_ariths unat_two_power) simp

lemma fold16_changes:
  assumes "k < 16"
  shows "(((s + 2 ^ k) AND 0xFFFF) + drop_bit 16 (s + 2 ^ k) :: 64 word)
           \<noteq> (s AND 0xFFFF) + drop_bit 16 s"
proof
  assume eq: "(((s + 2 ^ k) AND 0xFFFF) + drop_bit 16 (s + 2 ^ k) :: 64 word)
                = (s AND 0xFFFF) + drop_bit 16 s"
  have p: "(1::nat) \<le> 2 ^ k" by simp
  have s: "unat s < 2 ^ 64" using unsigned_less [of s] by simp
  from eq have "unat (((s + 2 ^ k) AND 0xFFFF) + drop_bit 16 (s + 2 ^ k))
      = unat ((s AND 0xFFFF) + drop_bit 16 s)" by (rule arg_cong)
  then have "((unat s + 2 ^ k) mod 2 ^ 64) mod 65536 + ((unat s + 2 ^ k) mod 2 ^ 64) div 65536
      = unat s mod 65536 + unat s div 65536"
    by (simp only: unat_fold16 unat_add_two_power [OF assms])
  with fold16_arith [OF s p two_power_small [OF assms]] show False by (rule notE)
qed

lemma xor_const_inject: "((a :: 64 word) XOR c = b XOR c) = (a = b)"
proof
  assume "a XOR c = b XOR c"
  then have "(a XOR c) XOR c = (b XOR c) XOR c" by simp
  then show "a = b" by (simp add: xor.assoc)
next
  assume "a = b"
  then show "a XOR c = b XOR c" by simp
qed

text \<open>
  C7. \<open>checksum_16\<close> is a function of its input, and on an input of even length it
  returns a checksum that changes whenever exactly one bit of one byte is flipped: two
  inputs at Hamming distance 1 never have the same checksum. This holds for either byte
  order.
\<close>

theorem checksum_16_single_bit:
  assumes "even (length data)" "i < length data" "j < 8"
  shows "(\<exists>c. checksum_16 bo data = Inr c)
       \<and> checksum_16 bo (data[i := data ! i XOR push_bit j 1]) \<noteq> checksum_16 bo data
       \<and> (\<forall>data'. data' = data \<longrightarrow> checksum_16 bo data' = checksum_16 bo data)"
proof -
  from view_uint16_even [OF assms(1)] obtain ws where
    ws: "view_uint16 bo data = Inr ws" "2 * length ws = length data" by blast
  from view_uint16_flip [OF assms(3) ws(1) assms(2)] obtain k where
    k: "k < 16" "view_uint16 bo (data[i := data ! i XOR push_bit j 1])
                   = Inr (ws[i div 2 := ws ! (i div 2) XOR push_bit k 1])" by blast
  let ?ws' = "ws[i div 2 := ws ! (i div 2) XOR push_bit k 1]"
  have m: "i div 2 < length ws" using ws(2) assms(2) by linarith
  let ?fold = "\<lambda>s :: 64 word. (s AND 0xFFFF) + drop_bit 16 s"
  have "?fold (np_sum ?ws') \<noteq> ?fold (np_sum ws)"
    using np_sum_flip [OF m k(1)]
  proof
    assume "np_sum ?ws' = np_sum ws + 2 ^ k"
    with fold16_changes [OF k(1), of "np_sum ws"] show ?thesis by simp
  next
    assume "np_sum ws = np_sum ?ws' + 2 ^ k"
    with fold16_changes [OF k(1), of "np_sum ?ws'"] show ?thesis by metis
  qed
  then have "checksum_16 bo (data[i := data ! i XOR push_bit j 1]) \<noteq> checksum_16 bo data"
    by (simp only: checksum_16_def ws(1) k(2) sum.case Let_def sum.inject xor_const_inject)
      simp
  moreover have "\<exists>c. checksum_16 bo data = Inr c"
    by (simp add: checksum_16_def ws(1) Let_def)
  ultimately show ?thesis by blast
qed

theorem checksum_16_single_bit_witness:
  "even (length [1, 2, 3, 4 :: 8 word]) \<and> (2::nat) < length [1, 2, 3, 4 :: 8 word] \<and> (0::nat) < 8
   \<and> [1, 2, 3, 4 :: 8 word][2 := [1, 2, 3, 4] ! 2 XOR push_bit 0 1] = [1, 2, 2, 4]
   \<and> checksum_16 LittleEndian [1, 2, 3, 4] = Inr 63995
   \<and> checksum_16 LittleEndian [1, 2, 2, 4] \<noteq> Inr 63995"
proof -
  have a: "even (length [1, 2, 3, 4 :: 8 word])" by simp
  have b: "(2::nat) < length [1, 2, 3, 4 :: 8 word]" by simp
  have c: "(0::nat) < 8" by simp
  have d: "[1, 2, 3, 4 :: 8 word][2 := [1, 2, 3, 4] ! 2 XOR push_bit 0 1] = [1, 2, 2, 4]"
    by code_simp
  have e: "checksum_16 LittleEndian [1, 2, 3, 4] = Inr 63995" by code_simp
  from checksum_16_single_bit [OF a b c, of LittleEndian] d e a b c show ?thesis
    by (simp only:) simp
qed

section \<open>bitsparser.py: the bit stream of a swapped capture\<close>

lemma lookup_table_nth:
  "i < 256 \<Longrightarrow> lookup_table ! i = word_of_int (int2 (rev (format_0b (int i) 8)))"
  by (simp add: lookup_table_def)

lemma lookup_table_bits: "lookup_table ! 0 = 0 \<and> lookup_table ! Suc 0 = 128"
proof -
  have "(word_of_int (int2 (rev (format_0b (int 0) 8))) :: 8 word) = 0"
    and "(word_of_int (int2 (rev (format_0b (int (Suc 0)) 8))) :: 8 word) = 128"
    by code_simp+
  then show ?thesis by (simp add: lookup_table_nth)
qed

lemma reverse_bits_of_digits:
  "digits_uint8 s = Inr bs \<Longrightarrow> reverse_bits bs = map (\<lambda>b. 128 * b) bs"
proof (induction s arbitrary: bs)
  case Nil
  then show ?case by (simp add: reverse_bits_def)
next
  case (Cons c cs)
  from Cons.prems obtain bs' where
    bs': "digits_uint8 cs = Inr bs'" "bs = (if c = CHR ''1'' then 1 else 0) # bs'"
    by (auto split: if_splits sum.splits)
  from Cons.IH [OF bs'(1)] have "reverse_bits bs' = map (\<lambda>b. 128 * b) bs'" .
  then show ?case
    by (simp add: reverse_bits_def bs'(2) lookup_table_bits)
qed

text \<open>
  C1. The claim is that a swapped capture (direction tag RAW) stores its bits reversed
  within each group of 8 and that any other capture stores them unchanged. The second
  half holds. For the first, \<open>reverse_bits\<close> indexes the table of reversed bytes with the
  elements of the bit array, which are single bits: every bit 1 becomes the byte 128 and
  every bit 0 stays 0, in the same position. On the bit string 10000000 the stored
  sequence is 128 followed by seven zeros, not 00000001.
\<close>

theorem swapped_bitstream_not_byte_reversed:
  "message_bitstream ''RAW'' ''10000000'' = Inr [128, 0, 0, 0, 0, 0, 0, 0]
   \<and> reverse_in_groups_of_8 [1, 0, 0, 0, 0, 0, 0, 0 :: 8 word] = [0, 0, 0, 0, 0, 0, 0, 1]
   \<and> message_bitstream ''RWA'' ''10000000'' = Inr [1, 0, 0, 0, 0, 0, 0, 0]"
proof -
  have d: "digits_uint8 ''10000000'' = Inr [1, 0, 0, 0, 0, 0, 0, 0]" by simp
  have s: "strip_decorations ''10000000'' = ''10000000''" by (simp add: strip_decorations_def)
  have "message_bitstream ''RAW'' ''10000000'' = Inr [128, 0, 0, 0, 0, 0, 0, 0]"
    using reverse_bits_of_digits [OF d] by (simp add: message_bitstream_def s)
  moreover have "reverse_in_groups_of_8 [1, 0, 0, 0, 0, 0, 0, 0 :: 8 word] = [0, 0, 0, 0, 0, 0, 0, 1]"
    by code_simp
  moreover have "message_bitstream ''RWA'' ''10000000'' = Inr [1, 0, 0, 0, 0, 0, 0, 0]"
    by (simp add: message_bitstream_def s)
  ultimately show ?thesis by blast
qed


section \<open>reedsolo.py and reedsolo6.py: encoding followed by decoding\<close>

lemma rs_correct_msg_unbound:
  "rs_correct_msg None gf msg_in (Suc n) = Inl NameError"
  by (simp add: rs_correct_msg_def rs_calc_syndromes_def bind_err_def upt_rec)

lemma rs_encode_msg6_unbound:
  "rs_encode_msg6 None gf msg (Suc n) generator None = Inl NameError"
  by (simp add: rs_encode_msg6_def rs_generator_poly6_def bind_err_def upt_rec)

lemma rs_decode_msg6_unbound:
  "rs_decode_msg6 None gx gf msg (Suc n) generator = Inl NameError"
  by (simp add: rs_decode_msg6_def bind_err_def upt_rec)

text \<open>
  C2. The claim is that decoding the result of encoding returns the pair (message,
  parity). With 8 parity symbols \<open>rs_correct_msg\<close> of reedsolo.py raises NameError on
  every input and for every state of the tables, because its first step calls the
  unbound \<open>gf_poly_eval\<close>; so encoding followed by decoding never returns a pair. With 10
  parity symbols \<open>rs_encode_msg\<close> of reedsolo6.py raises NameError in the generator
  polynomial (\<open>gf_exp\<close> is unbound), and \<open>rs_decode_msg\<close> raises NameError as well.
\<close>

theorem rs_roundtrip_raises:
  "rs_correct_msg reedsolo_gf_poly_eval gf codeword 8 = Inl NameError
   \<and> bind_err (rs_encode_msg gf msg 8) (\<lambda>c. rs_correct_msg reedsolo_gf_poly_eval gf c 8)
       = (case rs_encode_msg gf msg 8 of Inl e \<Rightarrow> Inl e | Inr c \<Rightarrow> Inl NameError)
   \<and> rs_encode_msg6 reedsolo6_gf_exp gf6 msg6 10 2 None = Inl NameError
   \<and> rs_decode_msg6 reedsolo6_gf_poly_eval reedsolo6_gf_exp gf6 codeword6 10 2 = Inl NameError"
proof -
  have e: "(8::nat) = Suc 7" "(10::nat) = Suc 9" by simp_all
  have a: "rs_correct_msg reedsolo_gf_poly_eval gf c 8 = Inl NameError" for c
    unfolding reedsolo_gf_poly_eval_def e by (rule rs_correct_msg_unbound)
  have b: "rs_encode_msg6 reedsolo6_gf_exp gf6 msg6 10 2 None = Inl NameError"
    unfolding reedsolo6_gf_exp_def e by (rule rs_encode_msg6_unbound)
  have c: "rs_decode_msg6 reedsolo6_gf_poly_eval reedsolo6_gf_exp gf6 codeword6 10 2 = Inl NameError"
    unfolding reedsolo6_gf_poly_eval_def e by (rule rs_decode_msg6_unbound)
  show ?thesis
    by (simp only: a b c bind_err_def)
qed


section \<open>rs.py and rs6.py: rs_check\<close>

text \<open>
  C3. The claim is that \<open>rs_check\<close> returns True exactly when the parity of the frame is
  the parity of its re-encoded message. Both wrappers pass the keyword \<open>fcr\<close> to an
  \<open>rs_encode_msg\<close> that has no such parameter; the TypeError is caught and \<open>rs_check\<close>
  returns False for every frame, whatever its parity.
\<close>

theorem rs_check_always_false:
  "rs_check gf data = False \<and> rs_check6 gx gf6 data6 = False"
  by (simp add: rs_check_def rs_check6_def reedsolo_rs_encode_msg_params_def
      reedsolo6_rs_encode_msg_params_def)

end
